theory Spec2Isabelle
  imports Complex_Main "HOL-Library.Word"
begin

section \<open>The live Doppler pipeline of livedoppler3.py\<close>

text \<open>
  A shallow embedding of \<^verbatim>\<open>livedoppler\<close>. The preliminary calculations
  (lines 74 to 82), the body of the collection loop (lines 87 to 103) and the
  \<^verbatim>\<open>KeyboardInterrupt\<close> handler (lines 106 to 112) are translated statement by
  statement. The serial port and the plot are external: a read of the port is an input of
  the model (\<open>None\<close> for the empty string), rendering changes no variable.

  Floats are real numbers here. The scalar arithmetic of the preliminary calculations,
  which decides the window size, the depth of the waterfall and the speed axis, is rounded
  to double precision after every operation (\<open>double\<close> below). The samples, the Hann
  window and the Fourier transform are left unrounded: what is proved of them is their
  length and where they are zero. Overflow and subnormal numbers are not modelled. The
  non-finite results of \<^verbatim>\<open>np.log10\<close>, \<open>-inf\<close> at zero and \<open>nan\<close> below it, are kept
  as values of their own.
\<close>

subsection \<open>Errors and values\<close>

datatype error = ZeroDivisionError | ValueError | IndexError

text \<open>
  A float of the waterfall: finite, the \<open>-inf\<close> that \<^verbatim>\<open>np.log10(0.0)\<close> gives, or the
  \<open>nan\<close> that it gives below zero.
\<close>

datatype fl = NegInf | NaN | Finite real

text \<open>\<^verbatim>\<open>int(x)\<close> of a float truncates towards zero.\<close>

definition py_int :: "real \<Rightarrow> int" where
  "py_int x = (if 0 \<le> x then \<lfloor>x\<rfloor> else \<lceil>x\<rceil>)"

text \<open>
  Rounding to the nearest double, ties to the even significand: a non-zero \<open>x\<close> with
  \<open>2^E \<le> |x| < 2^(E+1)\<close> is rounded to a multiple of \<open>2^(E-52)\<close>. The exponent is not
  bounded: overflow to infinity and the subnormal numbers are left out.
\<close>

definition round_half_even :: "real \<Rightarrow> int" where
  "round_half_even y =
     (let f = \<lfloor>y\<rfloor>; r = y - real_of_int f
      in if r < 1 / 2 then f else if 1 / 2 < r then f + 1 else if even f then f else f + 1)"

definition double :: "real \<Rightarrow> real" where
  "double x =
     (if x = 0 then 0
      else let e = \<lfloor>log 2 \<bar>x\<bar>\<rfloor> - 52
           in real_of_int (round_half_even (x / 2 powr real_of_int e)) * 2 powr real_of_int e)"

text \<open>The unit roundoff of the double format: half the gap between 1 and the next double.\<close>

definition unit_roundoff :: real where
  "unit_roundoff = 1 / 2 ^ 53"

text \<open>The slice \<^verbatim>\<open>xs[0:m]\<close>; a negative bound counts from the end.\<close>

definition slice_to :: "int \<Rightarrow> 'a list \<Rightarrow> 'a list" where
  "slice_to m xs = (if 0 \<le> m then take (nat m) xs else take (length xs - nat (- m)) xs)"

text \<open>The slices \<^verbatim>\<open>xs[0::2]\<close> and \<^verbatim>\<open>xs[1::2]\<close>.\<close>

fun evens :: "'a list \<Rightarrow> 'a list" where
  "evens [] = []"
| "evens [x] = [x]"
| "evens (x # y # xs) = x # evens xs"

fun odds :: "'a list \<Rightarrow> 'a list" where
  "odds [] = []"
| "odds [x] = []"
| "odds (x # y # xs) = y # odds xs"

text \<open>
  An elementwise operation of two one-dimensional arrays: the shapes must agree, or one of
  them is 1 and that operand is repeated (numpy's broadcasting); otherwise numpy raises
  \<^verbatim>\<open>ValueError\<close>.
\<close>

definition broadcast2 :: "('a \<Rightarrow> 'b \<Rightarrow> 'c) \<Rightarrow> 'a list \<Rightarrow> 'b list \<Rightarrow> error + 'c list" where
  "broadcast2 f xs ys =
     (if length xs = length ys then Inr (map2 f xs ys)
      else if length xs = 1 then Inr (map (f (hd xs)) ys)
      else if length ys = 1 then Inr (map (\<lambda>x. f x (hd ys)) xs)
      else Inl ValueError)"

subsection \<open>Decoding the raw bytes (lines 93 to 95)\<close>

definition Vref :: real where
  "Vref = 33 / 10"

text \<open>\<^verbatim>\<open>raw12bit*3.3/(2**12)-3.3/2\<close> for one element.\<close>

definition volt :: "int \<Rightarrow> real" where
  "volt r = real_of_int r * Vref / 2 ^ 12 - Vref / 2"

definition raw12bit :: "8 word list \<Rightarrow> error + int list" where
  "raw12bit rawbin =
     (let raw8bit = map uint rawbin
      in broadcast2 (+) (map (\<lambda>b. 256 * b) (evens raw8bit)) (odds raw8bit))"

definition decode :: "8 word list \<Rightarrow> error + real list" where
  "decode rawbin = (case raw12bit rawbin of Inl e \<Rightarrow> Inl e | Inr r \<Rightarrow> Inr (map volt r))"

text \<open>The pairing the decoder is specified by: sample \<open>i\<close> is made of bytes \<open>2i\<close> and \<open>2i+1\<close>.\<close>

definition pair_sample :: "8 word list \<Rightarrow> nat \<Rightarrow> real" where
  "pair_sample bs i = volt (256 * uint (bs ! (2 * i)) + uint (bs ! (2 * i + 1)))"

subsection \<open>The numpy functions of the preliminary calculations\<close>

definition c :: real where
  "c = 299000000"

definition fc :: real where
  "fc = 2440000000"

text \<open>\<^verbatim>\<open>np.arange(lo, hi, 2)\<close> on integers.\<close>

definition arange2 :: "int \<Rightarrow> int \<Rightarrow> int list" where
  "arange2 lo hi = map (\<lambda>j. lo + 2 * int j) [0..<nat ((hi - lo + 1) div 2)]"

text \<open>
  \<^verbatim>\<open>np.hanning(M)\<close>: empty below 1, \<open>[1.0]\<close> at 1, and otherwise
  \<^verbatim>\<open>0.5 + 0.5*cos(pi*n/(M-1))\<close> over \<^verbatim>\<open>n = arange(1-M, M, 2)\<close>.
\<close>

definition np_hanning :: "int \<Rightarrow> real list" where
  "np_hanning M =
     (if M < 1 then []
      else if M = 1 then [1]
      else map (\<lambda>n. 1 / 2 + 1 / 2 * cos (pi * real_of_int n / real_of_int (M - 1)))
             (arange2 (1 - M) M))"

text \<open>
  \<^verbatim>\<open>np.fft.fftfreq(n, d)\<close>: \<^verbatim>\<open>val = 1.0/(n*d)\<close>, then the integers
  \<open>0 .. (n-1)//2\<close> followed by \<open>-(n//2) .. -1\<close>, each times \<open>val\<close>. A zero
  \<open>n*d\<close> raises at the division, a negative \<open>n\<close> when the result is allocated. The
  product, the quotient and each entry are rounded.
\<close>

definition fftfreq :: "int \<Rightarrow> real \<Rightarrow> error + real list" where
  "fftfreq n d =
     (if double (real_of_int n * d) = 0 then Inl ZeroDivisionError
      else if n < 0 then Inl ValueError
      else let val = double (1 / double (real_of_int n * d))
           in Inr (map (\<lambda>k. double (real_of_int k * val))
                    ([0..(n - 1) div 2] @ [- (n div 2)..- 1])))"

text \<open>
  \<^verbatim>\<open>np.fft.fft\<close>, the discrete Fourier transform
  \<open>X[k] = \<Sum>j. x[j] * exp(-2\<pi>i jk/n)\<close>; numpy refuses an empty input.
\<close>

definition np_fft :: "complex list \<Rightarrow> error + complex list" where
  "np_fft xs =
     (let n = length xs
      in if n = 0 then Inl ValueError
         else Inr (map (\<lambda>k. sum_list (map2 (\<lambda>x j. x * cis (- 2 * pi * real j * real k / real n))
                                      xs [0..<n]))
                    [0..<n]))"

definition np_log10 :: "real \<Rightarrow> fl" where
  "np_log10 x = (if x = 0 then NegInf else if x < 0 then NaN else Finite (log 10 x))"

text \<open>The factor 20 of line 98: \<open>20 * -inf\<close> is \<open>-inf\<close>, \<open>20 * nan\<close> is \<open>nan\<close>.\<close>

fun times20 :: "fl \<Rightarrow> fl" where
  "times20 (Finite x) = Finite (20 * x)"
| "times20 NegInf = NegInf"
| "times20 NaN = NaN"

text \<open>Indexing with a boolean mask keeps the positions where the mask holds.\<close>

definition mask_select :: "bool list \<Rightarrow> 'a list \<Rightarrow> 'a list" where
  "mask_select msk xs = map snd (filter fst (zip msk xs))"

text \<open>\<^verbatim>\<open>speedaxis[speedaxis <= maxspeed]\<close> (line 79).\<close>

definition crop :: "real \<Rightarrow> real list \<Rightarrow> real list" where
  "crop maxspeed axis = mask_select (map (\<lambda>s. s \<le> maxspeed) axis) axis"

subsection \<open>The waterfall array\<close>

text \<open>A two-dimensional numpy array: its rows, and the number of columns (its shape is
  kept also when there is no row).\<close>

record array2 =
  ncols :: nat
  rows :: "fl list list"

definition shape :: "array2 \<Rightarrow> nat \<times> nat" where
  "shape a = (length (rows a), ncols a)"

text \<open>Every row has as many entries as the array has columns.\<close>

definition rect :: "array2 \<Rightarrow> bool" where
  "rect a \<longleftrightarrow> list_all (\<lambda>r. length r = ncols a) (rows a)"

definition np_zeros :: "int \<Rightarrow> int \<Rightarrow> error + array2" where
  "np_zeros d w =
     (if d < 0 \<or> w < 0 then Inl ValueError
      else Inr \<lparr>ncols = nat w, rows = replicate (nat d) (replicate (nat w) (Finite 0))\<rparr>)"

text \<open>\<^verbatim>\<open>doppler[:, mask]\<close> (line 78): the mask must be as long as a row.\<close>

definition mask_cols :: "bool list \<Rightarrow> array2 \<Rightarrow> error + array2" where
  "mask_cols msk a =
     (if length msk \<noteq> ncols a then Inl IndexError
      else Inr \<lparr>ncols = length (filter id msk), rows = map (mask_select msk) (rows a)\<rparr>)"

text \<open>\<^verbatim>\<open>np.roll(doppler, 1, axis=0)\<close> (line 97): every row moves one index up, the last
  row comes back at index 0.\<close>

definition np_roll1 :: "array2 \<Rightarrow> array2" where
  "np_roll1 a = a\<lparr>rows := (if rows a = [] then [] else last (rows a) # butlast (rows a))\<rparr>"

text \<open>\<^verbatim>\<open>doppler[0,:] = row\<close> (line 98): row 0 must exist, and the value must have the
  width of the array or one element, which is then repeated.\<close>

definition assign_row0 :: "array2 \<Rightarrow> fl list \<Rightarrow> error + array2" where
  "assign_row0 a row =
     (if rows a = [] then Inl IndexError
      else if length row = ncols a then Inr (a\<lparr>rows := (rows a)[0 := row]\<rparr>)
      else if length row = 1 then Inr (a\<lparr>rows := (rows a)[0 := replicate (ncols a) (hd row)]\<rparr>)
      else Inl ValueError)"

text \<open>The update of the waterfall: lines 97 and 98 together, for a given new row.\<close>

definition update :: "array2 \<Rightarrow> fl list \<Rightarrow> error + array2" where
  "update a row = assign_row0 (np_roll1 a) row"

subsection \<open>The variables of \<^verbatim>\<open>livedoppler\<close> and the preliminary calculations\<close>

record pstate =
  windowsize :: int
  han :: "real list"
  speedaxis :: "real list"
  doppler :: array2
  rawbin :: "8 word list"
  cbyte :: "8 word option"
  data :: "real list"

text \<open>
  The uncropped speed axis of line 76:
  \<^verbatim>\<open>(np.fft.fftfreq(windowsize, d=1.0/Fs)*c/fc)[0:int(windowsize/2)]\<close>, with \<open>1.0/Fs\<close>,
  the product with \<open>c\<close> and the quotient by \<open>fc\<close> rounded. The window size is an
  integer that came out of a double, so its half is a double and is not rounded.
\<close>

definition speedaxis0 :: "int \<Rightarrow> real \<Rightarrow> error + real list" where
  "speedaxis0 ws Fs =
     (if Fs = 0 then Inl ZeroDivisionError
      else case fftfreq ws (double (1 / Fs)) of
             Inl e \<Rightarrow> Inl e
           | Inr f \<Rightarrow> Inr (slice_to (py_int (real_of_int ws / 2))
                          (map (\<lambda>x. double (double (x * c) / fc)) f)))"

text \<open>One entry of that axis, as the five operations of line 76 compute it for bin \<open>k\<close>.\<close>

definition bin_speed :: "int \<Rightarrow> real \<Rightarrow> nat \<Rightarrow> real" where
  "bin_speed n Fs k =
     double (double (double (real k * double (1 / double (real_of_int n * double (1 / Fs)))) * c)
             / fc)"

text \<open>Lines 74 to 82, with the product \<open>cpi*Fs\<close> and the quotient \<open>loopduration/cpi\<close>
  rounded before \<^verbatim>\<open>int\<close> truncates them. Before the first read \<open>cbyte\<close> and \<open>data\<close>
  are not bound; they start as \<open>None\<close> and \<open>[]\<close>.\<close>

definition preliminary :: "real \<Rightarrow> real \<Rightarrow> real \<Rightarrow> real \<Rightarrow> error + pstate" where
  "preliminary cpi loopduration maxspeed Fs =
     (let ws = py_int (double (cpi * Fs));
          hn = np_hanning ws
      in case speedaxis0 ws Fs of
           Inl e \<Rightarrow> Inl e
         | Inr axis \<Rightarrow>
             if cpi = 0 then Inl ZeroDivisionError
             else case np_zeros (py_int (double (loopduration / cpi)))
                        (py_int (real_of_int ws / 2)) of
                    Inl e \<Rightarrow> Inl e
                  | Inr z \<Rightarrow>
                      (case mask_cols (map (\<lambda>s. s \<le> maxspeed) axis) z of
                         Inl e \<Rightarrow> Inl e
                       | Inr d \<Rightarrow>
                           Inr \<lparr>windowsize = ws, han = hn, speedaxis = crop maxspeed axis,
                                doppler = d, rawbin = [], cbyte = None, data = []\<rparr>))"

subsection \<open>The spectral transform (right-hand side of line 98)\<close>

text \<open>\<^verbatim>\<open>np.abs(np.fft.fft(han*data))[0:K]\<close>, the magnitudes the code keeps.\<close>

definition magnitudes :: "real list \<Rightarrow> real list \<Rightarrow> error + real list" where
  "magnitudes hn d =
     (case broadcast2 (*) hn d of
        Inl e \<Rightarrow> Inl e
      | Inr w \<Rightarrow> (case np_fft (map complex_of_real w) of
                    Inl e \<Rightarrow> Inl e
                  | Inr X \<Rightarrow> Inr (map cmod X)))"

definition decibel :: "real \<Rightarrow> fl" where
  "decibel m = times20 (np_log10 m)"

text \<open>The slice \<^verbatim>\<open>[0:K]\<close> of the magnitudes, with \<open>K = speedaxis.shape[0]\<close>.\<close>

definition kept_bins :: "nat \<Rightarrow> real list \<Rightarrow> real list \<Rightarrow> error + real list" where
  "kept_bins K hn d = (case magnitudes hn d of Inl e \<Rightarrow> Inl e | Inr m \<Rightarrow> Inr (take K m))"

definition transform :: "pstate \<Rightarrow> real list \<Rightarrow> error + fl list" where
  "transform st d =
     (case kept_bins (length (speedaxis st)) (han st) d of
        Inl e \<Rightarrow> Inl e
      | Inr m \<Rightarrow> Inr (map decibel m))"

text \<open>
  The specification's wording of the same bins, for comparison with \<open>kept_bins\<close>: the
  magnitude of the first \<open>N/2\<close> complex bins of the transform of the windowed sequence
  (the one-sided spectrum), then the crop to the first \<open>K\<close> bins.
\<close>

definition spec_one_sided_crop :: "nat \<Rightarrow> real list \<Rightarrow> real list \<Rightarrow> error + real list" where
  "spec_one_sided_crop K hn d =
     (case broadcast2 (*) hn d of
        Inl e \<Rightarrow> Inl e
      | Inr w \<Rightarrow> (case np_fft (map complex_of_real w) of
                    Inl e \<Rightarrow> Inl e
                  | Inr X \<Rightarrow> Inr (take K (map cmod (take (length w div 2) X)))))"

subsection \<open>The statements of the loop body\<close>

definition read_byte :: "8 word option \<Rightarrow> pstate \<Rightarrow> pstate" where
  "read_byte cb st = st\<lparr>cbyte := cb\<rparr>"

definition append_byte :: "pstate \<Rightarrow> pstate" where
  "append_byte st = (case cbyte st of None \<Rightarrow> st | Some b \<Rightarrow> st\<lparr>rawbin := rawbin st @ [b]\<rparr>)"

definition frame_ready :: "pstate \<Rightarrow> bool" where
  "frame_ready st \<longleftrightarrow> 2 * windowsize st \<le> int (length (rawbin st))"

definition decode_frame :: "pstate \<Rightarrow> error + pstate" where
  "decode_frame st = (case decode (rawbin st) of Inl e \<Rightarrow> Inl e | Inr d \<Rightarrow> Inr (st\<lparr>data := d\<rparr>))"

definition roll_buffer :: "pstate \<Rightarrow> pstate" where
  "roll_buffer st = st\<lparr>doppler := np_roll1 (doppler st)\<rparr>"

definition store_row :: "pstate \<Rightarrow> error + pstate" where
  "store_row st =
     (case transform st (data st) of
        Inl e \<Rightarrow> Inl e
      | Inr row \<Rightarrow> (case assign_row0 (doppler st) row of
                      Inl e \<Rightarrow> Inl e
                    | Inr a \<Rightarrow> Inr (st\<lparr>doppler := a\<rparr>)))"

definition clear_rawbin :: "pstate \<Rightarrow> pstate" where
  "clear_rawbin st = st\<lparr>rawbin := []\<rparr>"

text \<open>Lines 91 to 103, run once a full window is collected.\<close>

definition process_frame :: "pstate \<Rightarrow> error + pstate" where
  "process_frame st =
     (case decode_frame st of
        Inl e \<Rightarrow> Inl e
      | Inr st2 \<Rightarrow> (case store_row (roll_buffer st2) of
                      Inl e \<Rightarrow> Inl e
                    | Inr st3 \<Rightarrow> Inr (clear_rawbin st3)))"

text \<open>One iteration of the \<^verbatim>\<open>while True\<close> loop, for the result \<open>cb\<close> of the read.\<close>

definition step :: "8 word option \<Rightarrow> pstate \<Rightarrow> error + pstate" where
  "step cb st =
     (let st1 = append_byte (read_byte cb st)
      in if frame_ready st1 then process_frame st1 else Inr st1)"

text \<open>The loop over the results of successive reads, stopping at the first exception.\<close>

fun iterate :: "8 word option list \<Rightarrow> pstate \<Rightarrow> error + pstate" where
  "iterate [] st = Inr st"
| "iterate (cb # cbs) st = (case step cb st of Inl e \<Rightarrow> Inl e | Inr st' \<Rightarrow> iterate cbs st')"

subsection \<open>Statements and the interrupt\<close>

text \<open>
  The \<^verbatim>\<open>try\<close> block encloses the whole loop, and \<^verbatim>\<open>KeyboardInterrupt\<close> is raised
  wherever the interpreter is when Ctrl-C arrives. The loop body is therefore also given
  statement by statement: a point names the line about to run. Lines 91 to 95 and lines
  100 to 102 are one point each, as they assign none of the variables the function
  returns; an interrupt inside a statement leaves the variables as they were before it.
\<close>

datatype point = L87 | L88 | L90 | L91 | L97 | L98 | L100 | L103

text \<open>The statement at a point; \<open>cb\<close> is what the port delivers if it is the read.\<close>

fun exec :: "8 word option \<Rightarrow> point \<Rightarrow> pstate \<Rightarrow> error + point \<times> pstate" where
  "exec cb L87 st = Inr (L88, read_byte cb st)"
| "exec cb L88 st = Inr (L90, append_byte st)"
| "exec cb L90 st = Inr (if frame_ready st then L91 else L87, st)"
| "exec cb L91 st = (case decode_frame st of Inl e \<Rightarrow> Inl e | Inr st' \<Rightarrow> Inr (L97, st'))"
| "exec cb L97 st = Inr (L98, roll_buffer st)"
| "exec cb L98 st = (case store_row st of Inl e \<Rightarrow> Inl e | Inr st' \<Rightarrow> Inr (L100, st'))"
| "exec cb L100 st = Inr (L103, st)"
| "exec cb L103 st = Inr (L87, clear_rawbin st)"

text \<open>
  What happens next: the statement at the current point runs, or Ctrl-C arrives before it.
  The handler of lines 106 to 112 returns \<open>doppler\<close>; any other exception leaves the
  function.
\<close>

datatype event = Stmt "8 word option" | KeyboardInterrupt

datatype outcome = Running point pstate | Returned array2 | Raised error

fun run :: "event list \<Rightarrow> outcome \<Rightarrow> outcome" where
  "run (KeyboardInterrupt # evs) (Running p st) = Returned (doppler st)"
| "run (Stmt cb # evs) (Running p st) =
     (case exec cb p st of
        Inl e \<Rightarrow> Raised e
      | Inr (p', st') \<Rightarrow> run evs (Running p' st'))"
| "run evs out = out"

text \<open>
  Where the variables \<open>s\<close> at a point stand relative to the variables \<open>st\<close> at the top
  of the iteration under way, whose read delivered \<open>cb\<close>.
\<close>

fun at_point :: "pstate \<Rightarrow> 8 word option \<Rightarrow> point \<Rightarrow> pstate \<Rightarrow> bool" where
  "at_point st cb L87 s \<longleftrightarrow> s = st"
| "at_point st cb L88 s \<longleftrightarrow> s = read_byte cb st"
| "at_point st cb L90 s \<longleftrightarrow> s = append_byte (read_byte cb st)"
| "at_point st cb L91 s \<longleftrightarrow> s = append_byte (read_byte cb st) \<and> frame_ready s"
| "at_point st cb L97 s \<longleftrightarrow>
     frame_ready (append_byte (read_byte cb st)) \<and>
     decode_frame (append_byte (read_byte cb st)) = Inr s"
| "at_point st cb L98 s \<longleftrightarrow>
     (\<exists>s2. frame_ready (append_byte (read_byte cb st)) \<and>
           decode_frame (append_byte (read_byte cb st)) = Inr s2 \<and> s = roll_buffer s2)"
| "at_point st cb L100 s \<longleftrightarrow>
     frame_ready (append_byte (read_byte cb st)) \<and> step cb st = Inr (clear_rawbin s)"
| "at_point st cb L103 s \<longleftrightarrow>
     frame_ready (append_byte (read_byte cb st)) \<and> step cb st = Inr (clear_rawbin s)"

text \<open>The reads that line 87 performed while the events ran, in order.\<close>

fun top_reads :: "event list \<Rightarrow> point \<Rightarrow> pstate \<Rightarrow> 8 word option list" where
  "top_reads [] p st = []"
| "top_reads (KeyboardInterrupt # evs) p st = []"
| "top_reads (Stmt cb # evs) p st =
     (if p = L87 then [cb] else []) @
     (case exec cb p st of Inl e \<Rightarrow> [] | Inr (p', st') \<Rightarrow> top_reads evs p' st')"

text \<open>The update called once for each row of a list, oldest first.\<close>

fun updates :: "array2 \<Rightarrow> fl list list \<Rightarrow> error + array2" where
  "updates a [] = Inr a"
| "updates a (r # rs) = (case update a r of Inl e \<Rightarrow> Inl e | Inr a' \<Rightarrow> updates a' rs)"

text \<open>
  What holds of the variables at the top of the loop: the window size is positive, the
  Hann window has that many coefficients, the waterfall is as wide as the cropped speed
  axis, which has at most half as many entries as the window, and fewer than
  \<open>2*windowsize\<close> bytes are waiting.
\<close>

definition loop_inv :: "pstate \<Rightarrow> bool" where
  "loop_inv st \<longleftrightarrow>
     1 \<le> windowsize st \<and> length (han st) = nat (windowsize st) \<and>
     ncols (doppler st) = length (speedaxis st) \<and>
     int (length (speedaxis st)) \<le> windowsize st div 2 \<and>
     int (length (rawbin st)) < 2 * windowsize st"

subsection \<open>Some configurations\<close>

text \<open>
  The variables after the preliminary calculations for \<open>cpi = 3\<close>, \<open>loopduration = 6\<close>,
  \<open>maxspeed = 30\<close>, \<open>Fs = 1\<close> (a window of three samples, one retained bin, two rows),
  and for \<open>cpi = 1/256\<close>, \<open>loopduration = 1/128\<close>, \<open>maxspeed = 30\<close>, \<open>Fs = 2048\<close> (a
  window of eight samples, of whose four speeds one is retained).
\<close>

abbreviation st3 :: pstate where
  "st3 \<equiv> \<lparr>windowsize = 3, han = np_hanning 3, speedaxis = [0],
          doppler = \<lparr>ncols = 1, rows = [[Finite 0], [Finite 0]]\<rparr>,
          rawbin = [], cbyte = None, data = []\<rparr>"

abbreviation st8 :: pstate where
  "st8 \<equiv> \<lparr>windowsize = 8, han = np_hanning 8, speedaxis = [0],
          doppler = \<lparr>ncols = 1, rows = [[Finite 0], [Finite 0]]\<rparr>,
          rawbin = [], cbyte = None, data = []\<rparr>"

text \<open>
  The variables after the preliminary calculations for the default arguments
  \<open>cpi = 0.5\<close>, \<open>loopduration = 60\<close>, \<open>maxspeed = 30\<close>, \<open>Fs = 2000\<close>.
\<close>

abbreviation default_axis :: "real list" where
  "default_axis \<equiv> filter (\<lambda>s. s \<le> 30) (map (bin_speed 1000 2000) [0..<500])"

abbreviation st_default :: pstate where
  "st_default \<equiv> \<lparr>windowsize = 1000, han = np_hanning 1000, speedaxis = default_axis,
          doppler = \<lparr>ncols = length default_axis,
                     rows = replicate 120 (replicate (length default_axis) (Finite 0))\<rparr>,
          rawbin = [], cbyte = None, data = []\<rparr>"

text \<open>
  The first configuration after a frame of six zero bytes, whose row is \<open>row1\<close>, and
  after five more zero bytes.
\<close>

abbreviation row1 :: "fl list" where
  "row1 \<equiv> [Finite (20 * log 10 (33 / 20))]"

abbreviation st3_frame1 :: pstate where
  "st3_frame1 \<equiv> \<lparr>windowsize = 3, han = np_hanning 3, speedaxis = [0],
          doppler = \<lparr>ncols = 1, rows = [row1, [Finite 0]]\<rparr>,
          rawbin = [], cbyte = Some 0, data = [- (33 / 20), - (33 / 20), - (33 / 20)]\<rparr>"

abbreviation st3_five :: pstate where
  "st3_five \<equiv> \<lparr>windowsize = 3, han = np_hanning 3, speedaxis = [0],
          doppler = \<lparr>ncols = 1, rows = [row1, [Finite 0]]\<rparr>,
          rawbin = [0, 0, 0, 0, 0], cbyte = Some 0,
          data = [- (33 / 20), - (33 / 20), - (33 / 20)]\<rparr>"

subsection \<open>Lemmas on decoding\<close>

lemma length_evens: "length (evens xs) = (length xs + 1) div 2"
  by (induction xs rule: evens.induct) simp_all

lemma length_odds: "length (odds xs) = length xs div 2"
  by (induction xs rule: odds.induct) simp_all

lemma evens_nth: "2 * i < length xs \<Longrightarrow> evens xs ! i = xs ! (2 * i)"
proof (induction xs arbitrary: i rule: evens.induct)
  case (3 x y xs)
  then show ?case by (cases i) simp_all
qed simp_all

lemma odds_nth: "2 * i + 1 < length xs \<Longrightarrow> odds xs ! i = xs ! (2 * i + 1)"
proof (induction xs arbitrary: i rule: odds.induct)
  case (3 x y xs)
  then show ?case by (cases i) simp_all
qed simp_all

lemma evens_map: "evens (map f xs) = map f (evens xs)"
  by (induction xs rule: evens.induct) simp_all

lemma odds_map: "odds (map f xs) = map f (odds xs)"
  by (induction xs rule: odds.induct) simp_all

lemma raw12bit_even:
  assumes "even (length bs)"
  shows "raw12bit bs = Inr (map2 (\<lambda>h l. 256 * uint h + uint l) (evens bs) (odds bs))"
proof -
  from assms have "length (evens bs) = length (odds bs)"
    by (auto simp: length_evens length_odds elim: evenE)
  then show ?thesis
    by (simp add: raw12bit_def broadcast2_def evens_map odds_map zip_map1 zip_map2
        map_zip_map map_zip_map2 split_def)
qed

lemma decode_even:
  assumes "even (length bs)"
  shows "decode bs = Inr (map (pair_sample bs) [0..<length bs div 2])"
proof -
  let ?z = "map2 (\<lambda>h l. 256 * uint h + uint l) (evens bs) (odds bs)"
  from assms have len: "length (evens bs) = length bs div 2" "length (odds bs) = length bs div 2"
    by (auto simp: length_evens length_odds elim: evenE)
  have "map volt ?z = map (pair_sample bs) [0..<length bs div 2]"
  proof (rule nth_equalityI)
    show "length (map volt ?z) = length (map (pair_sample bs) [0..<length bs div 2])"
      using len by simp
  next
    fix i assume "i < length (map volt ?z)"
    then have i: "i < length bs div 2" using len by simp
    then have "2 * i < length bs" "2 * i + 1 < length bs" using assms by (auto elim: evenE)
    then show "map volt ?z ! i = map (pair_sample bs) [0..<length bs div 2] ! i"
      using i len by (simp add: pair_sample_def evens_nth odds_nth)
  qed
  then show ?thesis
    using raw12bit_even [OF assms] by (simp add: decode_def)
qed

lemma volt_range:
  assumes "0 \<le> r" "r \<le> 4095"
  shows "- (165 / 100) \<le> volt r \<and> volt r < 165 / 100"
proof -
  have "0 \<le> real_of_int r" "real_of_int r \<le> 4095"
    using assms by simp_all
  then show ?thesis
    by (simp add: volt_def Vref_def field_simps)
qed

subsection \<open>The sample decoder\<close>

text \<open>
  Claim C2. For every even-length byte sequence, the decoder succeeds and produces exactly
  \<open>length/2\<close> samples; sample \<open>i\<close> is made of the bytes \<open>b[2i]\<close> and \<open>b[2i+1]\<close> as
  \<open>raw12 = 256*b[2i] + b[2i+1]\<close> and \<open>voltage = raw12*3.3/4096 - 3.3/2\<close>. For every
  \<open>raw12\<close> in \<open>[0, 4095]\<close> the voltage lies in \<open>[-1.65, 1.65)\<close>.
\<close>

theorem decode_pairs_in_range:
  "(even (length bs) \<longrightarrow>
      (\<exists>samples. decode bs = Inr samples \<and> length samples = length bs div 2 \<and>
         (\<forall>i<length bs div 2.
            samples ! i =
              real_of_int (256 * uint (bs ! (2 * i)) + uint (bs ! (2 * i + 1))) * (33 / 10) / 4096
                - (33 / 10) / 2))) \<and>
   (0 \<le> r \<and> r \<le> 4095 \<longrightarrow>
      volt r = real_of_int r * (33 / 10) / 4096 - (33 / 10) / 2 \<and>
      - (165 / 100) \<le> volt r \<and> volt r < 165 / 100)"
proof (intro conjI impI)
  assume ev: "even (length bs)"
  let ?s = "map (pair_sample bs) [0..<length bs div 2]"
  have "decode bs = Inr ?s" by (rule decode_even [OF ev])
  moreover have "length ?s = length bs div 2" by simp
  moreover have "\<forall>i<length bs div 2.
      ?s ! i = real_of_int (256 * uint (bs ! (2 * i)) + uint (bs ! (2 * i + 1))) * (33 / 10) / 4096
                - (33 / 10) / 2"
    by (simp add: pair_sample_def volt_def Vref_def)
  ultimately show "\<exists>samples. decode bs = Inr samples \<and> length samples = length bs div 2 \<and>
         (\<forall>i<length bs div 2.
            samples ! i =
              real_of_int (256 * uint (bs ! (2 * i)) + uint (bs ! (2 * i + 1))) * (33 / 10) / 4096
                - (33 / 10) / 2)"
    by blast
next
  assume "0 \<le> r \<and> r \<le> 4095"
  then show "- (165 / 100) \<le> volt r" "volt r < 165 / 100"
    using volt_range [of r] by simp_all
next
  show "volt r = real_of_int r * (33 / 10) / 4096 - (33 / 10) / 2"
    by (simp add: volt_def Vref_def)
qed

theorem decode_pairs_in_range_witness:
  "even (length [8, 0, 15, 255 :: 8 word]) \<and>
   decode [8, 0, 15, 255] = Inr [0, 4095 * (33 / 10) / 4096 - (33 / 10) / 2] \<and>
   (0::int) \<le> 4095 \<and> (4095::int) \<le> 4095 \<and>
   - (165 / 100) \<le> volt 4095 \<and> volt 4095 < 165 / 100"
proof -
  have d: "decode [8, 0, 15, 255] = Inr [0, 4095 * (33 / 10) / 4096 - (33 / 10) / 2]"
    by (simp add: decode_def raw12bit_def broadcast2_def volt_def Vref_def)
  show ?thesis
    using decode_pairs_in_range [of "[8, 0, 15, 255]" 4095] d by simp
qed

subsection \<open>Lemmas on rounding\<close>


lemma round_half_even_of_int: "round_half_even (real_of_int m) = m"
  by (simp add: round_half_even_def)

lemma round_half_even_bounds:
  "\<lfloor>y\<rfloor> \<le> round_half_even y \<and> round_half_even y \<le> \<lfloor>y\<rfloor> + 1"
  by (simp add: round_half_even_def Let_def)

lemma double_zero: "double 0 = 0"
  by (simp add: double_def)

lemma double_eval:
  assumes "2 ^ 52 \<le> \<bar>x\<bar> * 2 powr (- real_of_int e)"
      and "\<bar>x\<bar> * 2 powr (- real_of_int e) < 2 ^ 53"
  shows "double x =
         real_of_int (round_half_even (x * 2 powr (- real_of_int e))) * 2 powr real_of_int e"
proof -
  have pos: "0 < \<bar>x\<bar>"
  proof (rule ccontr)
    assume "\<not> 0 < \<bar>x\<bar>"
    then have "x = 0" by simp
    with assms(1) show False by simp
  qed
  then have x0: "x \<noteq> 0" by auto
  have p: "(0::real) < 2 powr real_of_int e" by simp
  have inv: "2 powr (- real_of_int e) * 2 powr real_of_int e = (1::real)"
    by (simp add: powr_minus)
  have "2 ^ 52 * 2 powr real_of_int e \<le> (\<bar>x\<bar> * 2 powr (- real_of_int e)) * 2 powr real_of_int e"
    using assms(1) p by (intro mult_right_mono) simp_all
  then have lo: "2 powr real_of_int (52 + e) \<le> \<bar>x\<bar>"
    by (simp add: mult.assoc inv powr_add powr_realpow [symmetric] del: powr_realpow)
  have "(\<bar>x\<bar> * 2 powr (- real_of_int e)) * 2 powr real_of_int e < 2 ^ 53 * 2 powr real_of_int e"
    using assms(2) p by (intro mult_strict_right_mono) simp_all
  then have hi: "\<bar>x\<bar> < 2 powr real_of_int (52 + e + 1)"
    by (simp add: mult.assoc inv powr_add powr_realpow [symmetric] del: powr_realpow)
  from lo hi pos have "\<lfloor>log 2 \<bar>x\<bar>\<rfloor> = 52 + e"
    by (simp add: floor_log_eq_powr_iff)
  then have "\<lfloor>log 2 \<bar>x\<bar>\<rfloor> - 52 = e" by simp
  then show ?thesis
    using x0 by (simp add: double_def Let_def powr_minus divide_inverse)
qed

lemma double_eval_up:
  assumes "2 ^ 52 \<le> \<bar>x\<bar> * 2 ^ j" "\<bar>x\<bar> * 2 ^ j < 2 ^ 53"
  shows "double x = real_of_int (round_half_even (x * 2 ^ j)) / 2 ^ j"
proof -
  have e: "2 powr (- real_of_int (- int j)) = (2::real) ^ j"
    by (simp add: powr_realpow)
  have e': "2 powr real_of_int (- int j) = 1 / (2::real) ^ j"
    by (simp add: powr_minus powr_realpow divide_inverse)
  from double_eval [of x "- int j"] assms show ?thesis
    by (simp only: e e') simp
qed

lemma double_eval_down:
  assumes "2 ^ 52 \<le> \<bar>x\<bar> / 2 ^ j" "\<bar>x\<bar> / 2 ^ j < 2 ^ 53"
  shows "double x = real_of_int (round_half_even (x / 2 ^ j)) * 2 ^ j"
proof -
  have e: "2 powr (- real_of_int (int j)) = 1 / (2::real) ^ j"
    by (simp add: powr_minus powr_realpow divide_inverse)
  have e': "2 powr real_of_int (int j) = (2::real) ^ j"
    by (simp add: powr_realpow)
  from double_eval [of x "int j"] assms show ?thesis
    by (simp only: e e') simp
qed

lemma double_eq_0_iff: "double x = 0 \<longleftrightarrow> x = 0"
proof
  assume d: "double x = 0"
  show "x = 0"
  proof (rule ccontr)
    assume x0: "x \<noteq> 0"
    define E where "E = \<lfloor>log 2 \<bar>x\<bar>\<rfloor>"
    define y where "y = x / 2 powr real_of_int (E - 52)"
    have pos: "0 < \<bar>x\<bar>" using x0 by simp
    have "\<lfloor>log 2 \<bar>x\<bar>\<rfloor> = E" by (simp add: E_def)
    with pos have lo: "2 powr real_of_int E \<le> \<bar>x\<bar>"
      by (simp add: floor_log_eq_powr_iff)
    have "\<bar>y\<bar> = \<bar>x\<bar> / 2 powr real_of_int (E - 52)" by (simp add: y_def)
    also have "\<dots> \<ge> 2 powr real_of_int E / 2 powr real_of_int (E - 52)"
      using lo by (intro divide_right_mono) simp_all
    finally have "2 powr real_of_int E / 2 powr real_of_int (E - 52) \<le> \<bar>y\<bar>" .
    moreover have "2 powr real_of_int E / 2 powr real_of_int (E - 52) = (2::real) powr 52"
      by (simp add: powr_diff [symmetric])
    ultimately have big: "1 \<le> \<bar>y\<bar>"
      by (simp add: powr_realpow [of 2 52, simplified])
    have "round_half_even y \<noteq> 0"
    proof (cases "0 \<le> y")
      case True
      with big have "1 \<le> y" by simp
      then have "1 \<le> \<lfloor>y\<rfloor>" by simp
      with round_half_even_bounds [of y] show ?thesis by linarith
    next
      case False
      with big have "y \<le> - 1" by simp
      then have "\<lfloor>y\<rfloor> \<le> - 1" by (simp add: floor_le_iff)
      moreover have "round_half_even y \<le> \<lfloor>y\<rfloor> + 1"
        using round_half_even_bounds by blast
      moreover have "round_half_even y \<noteq> 0" if "\<lfloor>y\<rfloor> = - 1"
      proof -
        from that have f: "y - real_of_int \<lfloor>y\<rfloor> = y + 1" by simp
        from \<open>y \<le> - 1\<close> have "y + 1 \<le> 0" by simp
        with f that show ?thesis by (simp add: round_half_even_def Let_def)
      qed
      ultimately show ?thesis by (cases "\<lfloor>y\<rfloor> = - 1") auto
    qed
    moreover from d x0 have "real_of_int (round_half_even y) * 2 powr real_of_int (E - 52) = 0"
      by (simp add: double_def Let_def E_def y_def)
    ultimately show False by simp
  qed
next
  assume "x = 0"
  then show "double x = 0" by (simp add: double_def)
qed

text \<open>
  Four products and quotients of doubles: \<open>0.7*10\<close>, \<open>0.29*100\<close>, \<open>60/0.1\<close> and
  \<open>0.3/0.1\<close>, each decimal standing for the double nearest to it, and what
  \<^verbatim>\<open>int\<close> makes of the rounded result.
\<close>

lemma int_of_07_times_10: "py_int (double (6305039478318694 / 2 ^ 53 * 10)) = 7"
  by (subst double_eval_up [where j = 50]) (simp_all add: round_half_even_def Let_def py_int_def)

lemma int_of_029_times_100: "py_int (double (5224175567749775 / 2 ^ 54 * 100)) = 28"
  by (subst double_eval_up [where j = 48]) (simp_all add: round_half_even_def Let_def py_int_def)

lemma int_of_60_over_01: "py_int (double (60 / (3602879701896397 / 2 ^ 55))) = 600"
  by (subst double_eval_up [where j = 43]) (simp_all add: round_half_even_def Let_def py_int_def)

lemma int_of_03_over_01:
  "py_int (double (5404319552844595 / 2 ^ 54 / (3602879701896397 / 2 ^ 55))) = 2"
  by (subst double_eval_up [where j = 51]) (simp_all add: round_half_even_def Let_def py_int_def)

subsection \<open>Lemmas on the preliminary calculations\<close>


lemma mask_select_map: "mask_select (map P xs) xs = filter P xs"
  by (induction xs) (simp_all add: mask_select_def)

lemma crop_filter: "crop m xs = filter (\<lambda>s. s \<le> m) xs"
  by (simp add: crop_def mask_select_map)

lemma py_int_half: "0 \<le> ws \<Longrightarrow> py_int (real_of_int ws / 2) = ws div 2"
  by (simp add: py_int_def floor_divide_of_int_eq [of ws 2, simplified])

lemma upto_map_int: "[0..j] = map int [0..<nat (j + 1)]"
  by (rule nth_equalityI) (simp_all add: nth_upto)

lemma take_upto_append:
  assumes "0 \<le> m" "m \<le> j + 1"
  shows "take (nat m) ([0..j] @ ys) = map int [0..<nat m]"
proof -
  have "nat m \<le> nat (j + 1)" using assms by simp
  then show ?thesis
    by (simp add: upto_map_int take_map min_def)
qed

lemma fftfreq_ok:
  assumes "1 \<le> n" "d \<noteq> 0"
  shows "fftfreq n d =
    Inr (map (\<lambda>k. double (real_of_int k * double (1 / double (real_of_int n * d))))
          ([0..(n - 1) div 2] @ [- (n div 2)..- 1]))"
  using assms by (simp add: fftfreq_def double_eq_0_iff Let_def)

lemma speedaxis0_ok:
  assumes "1 \<le> ws" "Fs \<noteq> 0"
  shows "speedaxis0 ws Fs = Inr (map (bin_speed ws Fs) [0..<nat (ws div 2)])"
proof -
  have h: "py_int (real_of_int ws / 2) = ws div 2" using assms by (simp add: py_int_half)
  have le: "0 \<le> ws div 2" "ws div 2 \<le> (ws - 1) div 2 + 1" using assms by simp_all
  have d: "double (1 / Fs) \<noteq> 0" using assms(2) by (simp add: double_eq_0_iff)
  have "slice_to (ws div 2) (map (\<lambda>x. double (double (x * c) / fc))
          (map (\<lambda>k. double (real_of_int k * double (1 / double (real_of_int ws * double (1 / Fs)))))
             ([0..(ws - 1) div 2] @ [- (ws div 2)..- 1])))
        = map (bin_speed ws Fs) [0..<nat (ws div 2)]"
    using le unfolding slice_to_def
    by (simp only: take_map if_True take_upto_append) (simp add: bin_speed_def comp_def)
  then show ?thesis
    using assms(1) d by (simp add: speedaxis0_def fftfreq_ok h assms(2))
qed

lemma mask_select_replicate:
  "length msk = w \<Longrightarrow> mask_select msk (replicate w x) = replicate (length (filter id msk)) x"
proof (induction msk arbitrary: w)
  case Nil
  then show ?case by (simp add: mask_select_def)
next
  case (Cons b msk)
  then obtain w' where w: "w = Suc w'" "length msk = w'" by (cases w) auto
  with Cons.IH [of w'] show ?case by (simp add: mask_select_def)
qed

lemma py_int_nonneg_iff: "0 \<le> py_int x \<longleftrightarrow> - 1 < x"
  by (auto simp: py_int_def)

lemma nat_py_int: "- 1 < x \<Longrightarrow> nat (py_int x) = nat \<lfloor>x\<rfloor>"
  by (auto simp: py_int_def)

lemma py_int_ge1_iff: "1 \<le> py_int x \<longleftrightarrow> 1 \<le> x"
  by (auto simp: py_int_def)

lemma py_int_floor: "0 \<le> x \<Longrightarrow> py_int x = \<lfloor>x\<rfloor>"
  by (simp add: py_int_def)

lemma preliminary_ok:
  assumes "Fs \<noteq> 0" "1 \<le> double (cpi * Fs)" "- 1 < double (loopduration / cpi)"
  shows "preliminary cpi loopduration maxspeed Fs =
    Inr \<lparr>windowsize = \<lfloor>double (cpi * Fs)\<rfloor>, han = np_hanning \<lfloor>double (cpi * Fs)\<rfloor>,
         speedaxis = filter (\<lambda>s. s \<le> maxspeed)
           (map (bin_speed \<lfloor>double (cpi * Fs)\<rfloor> Fs) [0..<nat (\<lfloor>double (cpi * Fs)\<rfloor> div 2)]),
         doppler = \<lparr>ncols = length (filter (\<lambda>s. s \<le> maxspeed)
           (map (bin_speed \<lfloor>double (cpi * Fs)\<rfloor> Fs) [0..<nat (\<lfloor>double (cpi * Fs)\<rfloor> div 2)])),
            rows = replicate (nat \<lfloor>double (loopduration / cpi)\<rfloor>)
              (replicate (length (filter (\<lambda>s. s \<le> maxspeed)
           (map (bin_speed \<lfloor>double (cpi * Fs)\<rfloor> Fs) [0..<nat (\<lfloor>double (cpi * Fs)\<rfloor> div 2)])))
                 (Finite 0))\<rparr>,
         rawbin = [], cbyte = None, data = []\<rparr>"
proof -
  define ws where "ws = \<lfloor>double (cpi * Fs)\<rfloor>"
  have ws: "py_int (double (cpi * Fs)) = ws" "1 \<le> ws"
    using assms(2) by (simp_all add: py_int_floor ws_def)
  have cpi: "cpi \<noteq> 0"
  proof
    assume "cpi = 0"
    then have "double (cpi * Fs) = 0" by (simp add: double_zero)
    with assms(2) show False by simp
  qed
  have h: "py_int (real_of_int ws / 2) = ws div 2" using ws(2) by (simp add: py_int_half)
  have d: "0 \<le> py_int (double (loopduration / cpi))" using assms(3) by (simp add: py_int_nonneg_iff)
  have half: "0 \<le> ws div 2" using ws(2) by simp
  show ?thesis
    unfolding preliminary_def Let_def ws(1) h ws_def [symmetric]
    using ws(2) assms(1) cpi d half
    by (simp add: speedaxis0_ok crop_filter np_zeros_def mask_cols_def mask_select_replicate
        nat_py_int [OF assms(3)] length_filter_map comp_def del: replicate_eq_replicate)
qed

lemma fftfreq_Inr_D: "fftfreq n d = Inr f \<Longrightarrow> 1 \<le> n \<and> d \<noteq> 0"
  by (auto simp: fftfreq_def double_eq_0_iff split: if_splits)

lemma speedaxis0_Inr_D: "speedaxis0 ws Fs = Inr axis \<Longrightarrow> 1 \<le> ws \<and> Fs \<noteq> 0"
  by (auto simp: speedaxis0_def split: if_splits sum.splits dest: fftfreq_Inr_D)

lemma preliminary_Inr_D:
  assumes "preliminary cpi loopduration maxspeed Fs = Inr st"
  shows "Fs \<noteq> 0 \<and> 1 \<le> double (cpi * Fs) \<and> - 1 < double (loopduration / cpi)"
proof -
  from assms obtain axis where ax: "speedaxis0 (py_int (double (cpi * Fs))) Fs = Inr axis"
    by (auto simp: preliminary_def Let_def split: sum.splits)
  then have a: "1 \<le> py_int (double (cpi * Fs))" "Fs \<noteq> 0" by (auto dest: speedaxis0_Inr_D)
  from assms ax have "0 \<le> py_int (double (loopduration / cpi))"
    by (auto simp: preliminary_def Let_def np_zeros_def split: sum.splits if_splits)
  with a show ?thesis by (simp add: py_int_ge1_iff py_int_nonneg_iff)
qed

text \<open>What a successful run of the preliminary calculations says of each variable.\<close>

lemma preliminary_fields:
  assumes "preliminary cpi loopduration maxspeed Fs = Inr st"
  shows "windowsize st = \<lfloor>double (cpi * Fs)\<rfloor>" "1 \<le> windowsize st"
    "han st = np_hanning (windowsize st)"
    "speedaxis0 (windowsize st) Fs = Inr (map (bin_speed (windowsize st) Fs) [0..<nat (windowsize st div 2)])"
    "speedaxis st = filter (\<lambda>s. s \<le> maxspeed)
       (map (bin_speed (windowsize st) Fs) [0..<nat (windowsize st div 2)])"
    "ncols (doppler st) = length (speedaxis st)"
    "rows (doppler st) = replicate (nat (py_int (double (loopduration / cpi))))
       (replicate (length (speedaxis st)) (Finite 0))"
    "0 \<le> py_int (double (loopduration / cpi))"
    "rawbin st = []" "Fs \<noteq> 0"
proof -
  from preliminary_Inr_D [OF assms]
  have p: "Fs \<noteq> 0" "1 \<le> double (cpi * Fs)" "- 1 < double (loopduration / cpi)" by simp_all
  note ok = preliminary_ok [OF p, of maxspeed]
  from assms ok show w: "windowsize st = \<lfloor>double (cpi * Fs)\<rfloor>" by auto
  from p(2) have "1 \<le> \<lfloor>double (cpi * Fs)\<rfloor>" by simp
  then show w1: "1 \<le> windowsize st" by (simp only: w)
  from assms ok show "han st = np_hanning (windowsize st)" by auto
  from speedaxis0_ok [OF w1 p(1)]
  show "speedaxis0 (windowsize st) Fs =
      Inr (map (bin_speed (windowsize st) Fs) [0..<nat (windowsize st div 2)])" .
  from assms ok show sp: "speedaxis st = filter (\<lambda>s. s \<le> maxspeed)
       (map (bin_speed (windowsize st) Fs) [0..<nat (windowsize st div 2)])" by auto
  from assms ok show "ncols (doppler st) = length (speedaxis st)" by auto
  from assms ok have "rows (doppler st) = replicate (nat \<lfloor>double (loopduration / cpi)\<rfloor>)
       (replicate (length (speedaxis st)) (Finite 0))" by auto
  then show "rows (doppler st) = replicate (nat (py_int (double (loopduration / cpi))))
       (replicate (length (speedaxis st)) (Finite 0))"
    by (simp only: nat_py_int [OF p(3)])
  from p(3) show "0 \<le> py_int (double (loopduration / cpi))" by (simp add: py_int_nonneg_iff)
  from assms ok show "rawbin st = []" by auto
  show "Fs \<noteq> 0" by (rule p(1))
qed

subsection \<open>Lemmas on the spectral transform\<close>

lemma length_arange2: "length (arange2 lo hi) = nat ((hi - lo + 1) div 2)"
  by (simp add: arange2_def)

lemma length_np_hanning: "length (np_hanning M) = nat M"
  by (simp add: np_hanning_def length_arange2)

lemma np_fft_length: "np_fft xs = Inr X \<Longrightarrow> length X = length xs"
  by (auto simp: np_fft_def Let_def split: if_splits)

lemma np_fft_ok: "xs \<noteq> [] \<Longrightarrow> \<exists>X. np_fft xs = Inr X"
  by (simp add: np_fft_def Let_def)

lemma magnitudes_ok:
  assumes "length hn = length d" "d \<noteq> []"
  shows "\<exists>m. magnitudes hn d = Inr m \<and> length m = length d"
proof -
  let ?w = "map complex_of_real (map2 (*) hn d)"
  from assms have "?w \<noteq> []" by (cases hn; cases d) simp_all
  then obtain X where X: "np_fft ?w = Inr X" using np_fft_ok by blast
  then have "length X = length d" using assms by (simp add: np_fft_length)
  with X assms show ?thesis by (simp add: magnitudes_def broadcast2_def)
qed

lemma transform_ok:
  assumes "length (han st) = length d" "d \<noteq> []"
  shows "\<exists>m. magnitudes (han st) d = Inr m \<and> length m = length d \<and>
             transform st d = Inr (map decibel (take (length (speedaxis st)) m))"
  using magnitudes_ok [OF assms] by (auto simp: transform_def kept_bins_def)

lemma broadcast2_length:
  "broadcast2 f xs ys = Inr w \<Longrightarrow> w = [] \<or> length ys \<le> length w"
  by (cases xs; cases ys) (auto simp: broadcast2_def split: if_splits)

subsection \<open>Lemmas on the loop body\<close>

lemma process_frame_keeps:
  assumes "process_frame st = Inr st'"
  shows "windowsize st' = windowsize st \<and> han st' = han st \<and> speedaxis st' = speedaxis st"
  using assms
  by (auto simp: process_frame_def decode_frame_def store_row_def roll_buffer_def clear_rawbin_def
      split: sum.splits)

lemma step_keeps:
  assumes "step cb st = Inr st'"
  shows "windowsize st' = windowsize st \<and> han st' = han st \<and> speedaxis st' = speedaxis st"
  using assms
  by (auto simp: step_def Let_def append_byte_def read_byte_def
      split: if_splits option.splits dest: process_frame_keeps)

lemma iterate_keeps:
  "iterate cbs st = Inr st' \<Longrightarrow>
   windowsize st' = windowsize st \<and> han st' = han st \<and> speedaxis st' = speedaxis st"
proof (induction cbs arbitrary: st)
  case Nil
  then show ?case by simp
next
  case (Cons cb cbs)
  then obtain st1 where s: "step cb st = Inr st1" and i: "iterate cbs st1 = Inr st'"
    by (auto split: sum.splits)
  from Cons.IH [OF i] step_keeps [OF s] show ?case by simp
qed

subsection \<open>Lemmas on the configurations\<close>

lemma double_2: "double 2 = 2"
  by (subst double_eval_up [where j = 51]; simp add: round_half_even_def Let_def)

lemma double_3: "double 3 = 3"
  by (subst double_eval_up [where j = 51]; simp add: round_half_even_def Let_def)

lemma double_8: "double 8 = 8"
  by (subst double_eval_up [where j = 49]; simp add: round_half_even_def Let_def)

lemma double_120: "double 120 = 120"
  by (subst double_eval_up [where j = 46]; simp add: round_half_even_def Let_def)

lemma double_1000: "double 1000 = 1000"
  by (subst double_eval_up [where j = 43]; simp add: round_half_even_def Let_def)

lemma bin_speed_0: "bin_speed n Fs 0 = 0"
  by (simp add: bin_speed_def double_zero)

lemma upt_3: "[0..<3] = [0, 1, 2::nat]"
  by code_simp

lemma upt_4: "[0..<4] = [0, 1, 2, 3::nat]"
  by code_simp

lemma np_hanning_3: "np_hanning 3 = [0, 1, 0]"
  by (simp add: np_hanning_def arange2_def numeral_3_eq_3)

lemma preliminary_3: "preliminary 3 6 30 1 = Inr st3"
  using preliminary_ok [of 1 3 6 30] by (simp add: double_2 double_3 bin_speed_0 numeral_2_eq_2)

text \<open>The speeds of bins 1 to 3 for a window of eight samples at 2048 Hz.\<close>

lemma b8_d: "double (1 / 2048) = 1 / 2 ^ 11"
  by (subst double_eval_up [where j = 63]; simp add: round_half_even_def Let_def)

lemma b8_nd: "double (8 * double (1 / 2048)) = 1 / 2 ^ 8"
  by (simp only: b8_d) (subst double_eval_up [where j = 60]; simp add: round_half_even_def Let_def)

lemma b8_val: "double (1 / double (8 * double (1 / 2048))) = 256"
  by (simp only: b8_nd) (subst double_eval_up [where j = 44]; simp add: round_half_even_def Let_def)

lemma b8_kv1: "double (1 * double (1 / double (8 * double (1 / 2048)))) = 256"
  by (simp only: b8_val) (subst double_eval_up [where j = 44]; simp add: round_half_even_def Let_def)

lemma b8_kvc1: "double (double (1 * double (1 / double (8 * double (1 / 2048)))) * 299000000) = 76544000000"
  by (simp only: b8_kv1) (subst double_eval_up [where j = 16]; simp add: round_half_even_def Let_def)

lemma b8_e1: "double (double (double (1 * double (1 / double (8 * double (1 / 2048)))) * 299000000) / 2440000000) = 4415004224864847 / 2 ^ 47"
  by (simp only: b8_kvc1) (subst double_eval_up [where j = 48]; simp add: round_half_even_def Let_def)

lemma b8_bin1: "bin_speed 8 2048 1 = 4415004224864847 / 2 ^ 47"
  by (simp only: bin_speed_def c_def fc_def of_nat_numeral of_int_numeral of_nat_1 b8_e1)

lemma b8_kv2: "double (2 * double (1 / double (8 * double (1 / 2048)))) = 512"
  by (simp only: b8_val) (subst double_eval_up [where j = 43]; simp add: round_half_even_def Let_def)

lemma b8_kvc2: "double (double (2 * double (1 / double (8 * double (1 / 2048)))) * 299000000) = 153088000000"
  by (simp only: b8_kv2) (subst double_eval_up [where j = 15]; simp add: round_half_even_def Let_def)

lemma b8_e2: "double (double (double (2 * double (1 / double (8 * double (1 / 2048)))) * 299000000) / 2440000000) = 4415004224864847 / 2 ^ 46"
  by (simp only: b8_kvc2) (subst double_eval_up [where j = 47]; simp add: round_half_even_def Let_def)

lemma b8_bin2: "bin_speed 8 2048 2 = 4415004224864847 / 2 ^ 46"
  by (simp only: bin_speed_def c_def fc_def of_nat_numeral of_int_numeral of_nat_1 b8_e2)

lemma b8_kv3: "double (3 * double (1 / double (8 * double (1 / 2048)))) = 768"
  by (simp only: b8_val) (subst double_eval_up [where j = 43]; simp add: round_half_even_def Let_def)

lemma b8_kvc3: "double (double (3 * double (1 / double (8 * double (1 / 2048)))) * 299000000) = 229632000000"
  by (simp only: b8_kv3) (subst double_eval_up [where j = 15]; simp add: round_half_even_def Let_def)

lemma b8_e3: "double (double (double (3 * double (1 / double (8 * double (1 / 2048)))) * 299000000) / 2440000000) = 3311253168648635 / 2 ^ 45"
  by (simp only: b8_kvc3) (subst double_eval_up [where j = 46]; simp add: round_half_even_def Let_def)

lemma b8_bin3: "bin_speed 8 2048 3 = 3311253168648635 / 2 ^ 45"
  by (simp only: bin_speed_def c_def fc_def of_nat_numeral of_int_numeral of_nat_1 b8_e3)

lemma axis_8: "filter (\<lambda>s. s \<le> 30) (map (bin_speed 8 2048) [0..<4]) = [0]"
proof -
  have "bin_speed 8 2048 (Suc 0) = 4415004224864847 / 2 ^ 47" using b8_bin1 by simp
  then show ?thesis by (simp add: upt_4 bin_speed_0 b8_bin2 b8_bin3)
qed

lemma preliminary_8: "preliminary (1 / 256) (1 / 128) 30 2048 = Inr st8"
  using preliminary_ok [of 2048 "1 / 256" "1 / 128" 30]
  by (simp add: double_2 double_8 axis_8 numeral_2_eq_2)

lemma preliminary_default: "preliminary (1 / 2) 60 30 2000 = Inr st_default"
  using preliminary_ok [of 2000 "1 / 2" 60 30] by (simp add: double_120 double_1000)

subsection \<open>Lemmas on the speed axis\<close>

text \<open>The speed of bin 305 for a window of 644 samples at 644 Hz.\<close>

lemma b644_d: "double (1 / 644) = 3580501567102009 / 2 ^ 61"
  by (subst double_eval_up [where j = 62]; simp add: round_half_even_def Let_def)

lemma b644_nd: "double (644 * double (1 / 644)) = 9007199254740991 / 2 ^ 53"
  by (simp only: b644_d) (subst double_eval_up [where j = 53]; simp add: round_half_even_def Let_def)

lemma b644_val: "double (1 / double (644 * double (1 / 644))) = 4503599627370497 / 2 ^ 52"
  by (simp only: b644_nd) (subst double_eval_up [where j = 52]; simp add: round_half_even_def Let_def)

lemma b644_kv305: "double (305 * double (1 / double (644 * double (1 / 644)))) = 5365616743546881 / 2 ^ 44"
  by (simp only: b644_val) (subst double_eval_up [where j = 44]; simp add: round_half_even_def Let_def)

lemma b644_kvc305: "double (double (305 * double (1 / double (644 * double (1 / 644)))) * 299000000) = 5976555520000001 / 2 ^ 16"
  by (simp only: b644_kv305) (subst double_eval_up [where j = 16]; simp add: round_half_even_def Let_def)

lemma b644_e305: "double (double (double (305 * double (1 / double (644 * double (1 / 644)))) * 299000000) / 2440000000) = 5260063627280385 / 2 ^ 47"
  by (simp only: b644_kvc305) (subst double_eval_up [where j = 47]; simp add: round_half_even_def Let_def)

lemma b644_bin305: "bin_speed 644 644 305 = 5260063627280385 / 2 ^ 47"
  by (simp only: bin_speed_def c_def fc_def of_nat_numeral of_int_numeral of_nat_1 b644_e305)

lemma double_644: "double 644 = 644"
  by (subst double_eval_up [where j = 43]; simp add: round_half_even_def Let_def)

text \<open>
  Rounding moves a number by at most the unit roundoff, relatively; the six roundings of a
  bin's speed therefore keep it within \<open>2^-50\<close>, relatively, of the quotient taken exactly.
\<close>

lemma round_half_even_near: "\<bar>real_of_int (round_half_even y) - y\<bar> \<le> 1 / 2"
proof -
  have "real_of_int \<lfloor>y\<rfloor> \<le> y" "y < real_of_int \<lfloor>y\<rfloor> + 1" by linarith+
  then show ?thesis
    by (auto simp: round_half_even_def Let_def abs_le_iff)
qed

lemma double_rel: "\<bar>double x - x\<bar> \<le> \<bar>x\<bar> / 2 ^ 53"
proof (cases "x = 0")
  case True
  then show ?thesis by (simp add: double_zero)
next
  case False
  define E where "E = \<lfloor>log 2 \<bar>x\<bar>\<rfloor>"
  define q where "q = 2 powr real_of_int (E - 52)"
  define y where "y = x / q"
  have qpos: "0 < q" by (simp add: q_def)
  have pos: "0 < \<bar>x\<bar>" using False by simp
  have "\<lfloor>log 2 \<bar>x\<bar>\<rfloor> = E" by (simp add: E_def)
  with pos have lo: "2 powr real_of_int E \<le> \<bar>x\<bar>"
    by (simp add: floor_log_eq_powr_iff)
  have d: "double x = real_of_int (round_half_even y) * q"
    using False by (simp add: double_def Let_def E_def q_def y_def)
  have x: "x = y * q" using qpos by (simp add: y_def)
  have "double x - x = (real_of_int (round_half_even y) - y) * q"
    by (simp add: d x [symmetric] algebra_simps) (simp add: x)
  then have "\<bar>double x - x\<bar> = \<bar>real_of_int (round_half_even y) - y\<bar> * q"
    using qpos by (simp add: abs_mult)
  also have "\<dots> \<le> 1 / 2 * q"
    using round_half_even_near [of y] qpos by (intro mult_right_mono) simp_all
  also have "1 / 2 * q = 2 powr real_of_int E / 2 ^ 53"
  proof -
    have "q = 2 powr real_of_int E / 2 powr 52"
      by (simp add: q_def powr_diff)
    also have "(2::real) powr 52 = 2 ^ 52" by (simp add: powr_realpow [of 2 52, simplified])
    finally show ?thesis by simp
  qed
  also have "\<dots> \<le> \<bar>x\<bar> / 2 ^ 53" using lo by (intro divide_right_mono) simp_all
  finally show ?thesis .
qed

lemma double_between:
  assumes "0 \<le> a" "a \<le> x" "x \<le> b"
  shows "(1 - unit_roundoff) * a \<le> double x \<and> double x \<le> (1 + unit_roundoff) * b"
proof -
  define u where "u = unit_roundoff"
  have u: "0 \<le> u" "u \<le> 1" by (simp_all add: u_def unit_roundoff_def)
  have x0: "0 \<le> x" using assms by simp
  have "\<bar>double x - x\<bar> \<le> x * u"
    using double_rel [of x] x0 by (simp add: u_def unit_roundoff_def)
  then have "x - x * u \<le> double x" "double x \<le> x + x * u" by linarith+
  then have l: "(1 - u) * x \<le> double x" and h: "double x \<le> (1 + u) * x"
    by (simp_all add: algebra_simps)
  have "(1 - u) * a \<le> (1 - u) * x"
    using assms(2) u by (intro mult_left_mono) simp_all
  moreover have "(1 + u) * x \<le> (1 + u) * b"
    using assms(3) u by (intro mult_left_mono) simp_all
  ultimately show ?thesis using l h unfolding u_def by linarith
qed

lemma roundoff_factors:
  "1 - 1 / 2 ^ 50 \<le> (1 - unit_roundoff) ^ 4 / (1 + unit_roundoff) ^ 2"
  "(1 + unit_roundoff) ^ 4 / (1 - unit_roundoff) ^ 2 \<le> 1 + 1 / 2 ^ 50"
  by (simp_all add: unit_roundoff_def field_simps)

lemma bin_speed_near:
  assumes "0 < Fs" "1 \<le> n"
  shows "\<bar>bin_speed n Fs k - real k * Fs / real_of_int n * c / fc\<bar>
           \<le> (real k * Fs / real_of_int n * c / fc) / 2 ^ 50"
proof -
  define lo where "lo = 1 - unit_roundoff"
  define hi where "hi = 1 + unit_roundoff"
  define N where "N = real_of_int n"
  define K where "K = real k"
  define X where "X = K * Fs / N * c / fc"
  have lo: "0 < lo" and hi: "0 < hi" by (simp_all add: lo_def hi_def unit_roundoff_def)
  have N: "0 < N" using assms(2) by (simp add: N_def)
  have K: "0 \<le> K" by (simp add: K_def)
  have c: "0 < c" "0 < fc" by (simp_all add: c_def fc_def)
  note Fs = assms(1)
  note b = double_between [folded lo_def hi_def]
  define d where "d = double (1 / Fs)"
  have d: "lo * (1 / Fs) \<le> d" "d \<le> hi * (1 / Fs)"
    using b [of "1 / Fs" "1 / Fs" "1 / Fs"] Fs by (simp_all add: d_def)
  define A1 where "A1 = lo * (1 / Fs)"
  define B1 where "B1 = hi * (1 / Fs)"
  have A1: "0 < A1" using lo Fs by (simp add: A1_def)
  define nd where "nd = double (N * d)"
  have "N * A1 \<le> N * d" "N * d \<le> N * B1"
    using d N unfolding A1_def B1_def by (intro mult_left_mono; simp)+
  moreover have "0 \<le> N * A1" using N A1 by simp
  ultimately have nd: "lo * (N * A1) \<le> nd" "nd \<le> hi * (N * B1)"
    using b [of "N * A1" "N * d" "N * B1"] by (simp_all add: nd_def)
  define A2 where "A2 = lo * (N * A1)"
  define B2 where "B2 = hi * (N * B1)"
  have A2: "0 < A2" using lo N A1 by (simp add: A2_def)
  have ndpos: "0 < nd" using nd(1) A2 by (simp add: A2_def)
  define val where "val = double (1 / nd)"
  have "1 / B2 \<le> 1 / nd" "1 / nd \<le> 1 / A2"
    using nd ndpos A2 by (simp_all add: A2_def B2_def frac_le)
  moreover have B2: "0 < B2" using nd(2) ndpos by (simp add: B2_def)
  then have "0 \<le> 1 / B2" by simp
  ultimately have val: "lo * (1 / B2) \<le> val" "val \<le> hi * (1 / A2)"
    using b [of "1 / B2" "1 / nd" "1 / A2"] by (simp_all add: val_def)
  define A3 where "A3 = lo * (1 / B2)"
  define B3 where "B3 = hi * (1 / A2)"
  have A3: "0 \<le> A3" using lo B2 by (simp add: A3_def)
  define kv where "kv = double (K * val)"
  have "K * A3 \<le> K * val" "K * val \<le> K * B3"
    using val K unfolding A3_def B3_def by (intro mult_left_mono; simp)+
  moreover have "0 \<le> K * A3" using K A3 by simp
  ultimately have kv: "lo * (K * A3) \<le> kv" "kv \<le> hi * (K * B3)"
    using b [of "K * A3" "K * val" "K * B3"] by (simp_all add: kv_def)
  define A4 where "A4 = lo * (K * A3)"
  define B4 where "B4 = hi * (K * B3)"
  have A4: "0 \<le> A4" using lo K A3 by (simp add: A4_def)
  define kvc where "kvc = double (kv * c)"
  have "A4 * c \<le> kv * c" "kv * c \<le> B4 * c"
    using kv c unfolding A4_def B4_def by (intro mult_right_mono; simp)+
  moreover have "0 \<le> A4 * c" using A4 c by simp
  ultimately have kvc: "lo * (A4 * c) \<le> kvc" "kvc \<le> hi * (B4 * c)"
    using b [of "A4 * c" "kv * c" "B4 * c"] by (simp_all add: kvc_def)
  define A5 where "A5 = lo * (A4 * c)"
  define B5 where "B5 = hi * (B4 * c)"
  have A5: "0 \<le> A5" using lo A4 c by (simp add: A5_def)
  define e where "e = double (kvc / fc)"
  have "A5 / fc \<le> kvc / fc" "kvc / fc \<le> B5 / fc"
    using kvc c unfolding A5_def B5_def by (intro divide_right_mono; simp)+
  moreover have "0 \<le> A5 / fc" using A5 c by simp
  ultimately have e: "lo * (A5 / fc) \<le> e" "e \<le> hi * (B5 / fc)"
    using b [of "A5 / fc" "kvc / fc" "B5 / fc"] by (simp_all add: e_def)
  have eq: "bin_speed n Fs k = e"
    by (simp add: bin_speed_def e_def kvc_def kv_def val_def nd_def d_def N_def K_def)
  have X0: "0 \<le> X" using K Fs N c by (simp add: X_def)
  have L: "lo * (A5 / fc) = lo ^ 4 / hi ^ 2 * X"
    using lo hi N Fs c
    by (simp add: A5_def A4_def A3_def B2_def B1_def X_def power2_eq_square power4_eq_xxxx
        field_simps)
  have H: "hi * (B5 / fc) = hi ^ 4 / lo ^ 2 * X"
    using lo hi N Fs c
    by (simp add: B5_def B4_def B3_def A2_def A1_def X_def power2_eq_square power4_eq_xxxx
        field_simps)
  have l1: "(1 - 1 / 2 ^ 50) * X \<le> lo ^ 4 / hi ^ 2 * X"
    using roundoff_factors(1) X0 unfolding lo_def hi_def by (intro mult_right_mono)
  have l2: "lo ^ 4 / hi ^ 2 * X \<le> e"
    using e(1) unfolding L .
  have l: "(1 - 1 / 2 ^ 50) * X \<le> e"
    using l1 l2 by (rule order_trans)
  have h1: "hi ^ 4 / lo ^ 2 * X \<le> (1 + 1 / 2 ^ 50) * X"
    using roundoff_factors(2) X0 unfolding lo_def hi_def by (intro mult_right_mono)
  have h2: "e \<le> hi ^ 4 / lo ^ 2 * X"
    using e(2) unfolding H .
  have h: "e \<le> (1 + 1 / 2 ^ 50) * X"
    using h2 h1 by (rule order_trans)
  have "(1 - 1 / 2 ^ 50) * X = X - X / 2 ^ 50" "(1 + 1 / 2 ^ 50) * X = X + X / 2 ^ 50"
    by (simp_all only: left_diff_distrib distrib_right mult_1 times_divide_eq_left)
  with l h have "X - X / 2 ^ 50 \<le> e" "e \<le> X + X / 2 ^ 50"
    by (simp_all only:)
  then have "\<bar>e - X\<bar> \<le> X / 2 ^ 50" by linarith
  then show ?thesis by (simp add: eq X_def K_def N_def)
qed

subsection \<open>The speed axis\<close>

text \<open>
  With \<open>cpi = 1\<close> and \<open>Fs = 644\<close> the window has 644 samples and the axis 322 bins.
  The formula \<open>(k*Fs/windowsize)*c/fc\<close> gives 37.375 for bin 305; line 76 computes
  \<open>1.0/(n*d)\<close> first, which is not 1, and ends at the next double above 37.375. A
  \<open>maxspeed\<close> of 37.375 therefore drops the bin.
\<close>

theorem speedaxis_rounding_counterexample:
  "py_int (double (1 * 644)) = 644 \<and>
   speedaxis0 644 644 = Inr (map (bin_speed 644 644) [0..<322]) \<and>
   bin_speed 644 644 305 = 5260063627280385 / 2 ^ 47 \<and>
   real 305 * 644 / real_of_int 644 * 299000000 / 2440000000 = 299 / 8 \<and>
   bin_speed 644 644 305 \<noteq> real 305 * 644 / real_of_int 644 * 299000000 / 2440000000 \<and>
   \<not> bin_speed 644 644 305 \<le> 299 / 8"
proof -
  have 1: "py_int (double (1 * 644)) = 644" by (simp add: double_644 py_int_def)
  have "speedaxis0 644 644 = Inr (map (bin_speed 644 644) [0..<nat (644 div 2)])"
    by (rule speedaxis0_ok) simp_all
  moreover have "nat (644 div 2) = 322" by simp
  ultimately have 2: "speedaxis0 644 644 = Inr (map (bin_speed 644 644) [0..<322])"
    by (simp only:)
  have 4: "real 305 * 644 / real_of_int 644 * 299000000 / 2440000000 = 299 / 8" by simp
  have 5: "bin_speed 644 644 305 \<noteq> real 305 * 644 / real_of_int 644 * 299000000 / 2440000000"
    by (simp add: b644_bin305)
  have 6: "\<not> bin_speed 644 644 305 \<le> 299 / 8" by (simp add: b644_bin305)
  from 1 2 b644_bin305 4 5 6 show ?thesis by (intro conjI)
qed

text \<open>
  Claim C6, as the code has it. After the preliminary calculations, the speed axis of line
  76 has one entry for every bin \<open>k\<close> below \<open>int(windowsize/2)\<close>: the double that
  \<open>k * (1.0/(windowsize*(1.0/Fs))) * c / fc\<close> gives when every operation is rounded, with
  \<open>c = 2.99e8\<close> and \<open>fc = 2.44e9\<close>; for a positive sample rate it differs from
  \<open>(k*Fs/windowsize)*c/fc\<close> by at most that quotient times \<open>2^-50\<close>. The axis kept by
  line 79 consists of exactly the entries that are at most \<open>maxspeed\<close>, and no iteration
  of the loop changes it.
\<close>

theorem speedaxis_bins:
  assumes "preliminary cpi loopduration maxspeed Fs = Inr st"
  shows "\<exists>axis. speedaxis0 (windowsize st) Fs = Inr axis \<and>
           length axis = nat (windowsize st div 2) \<and>
           (\<forall>k<nat (windowsize st div 2).
              axis ! k =
                double (double (double (real k *
                  double (1 / double (real_of_int (windowsize st) * double (1 / Fs))))
                    * 299000000) / 2440000000)) \<and>
           (0 < Fs \<longrightarrow>
              (\<forall>k<nat (windowsize st div 2).
                 \<bar>axis ! k - real k * Fs / real_of_int (windowsize st) * 299000000 / 2440000000\<bar>
                   \<le> (real k * Fs / real_of_int (windowsize st) * 299000000 / 2440000000)
                        / 2 ^ 50)) \<and>
           speedaxis st = filter (\<lambda>s. s \<le> maxspeed) axis \<and>
           (\<forall>cbs st'. iterate cbs st = Inr st' \<longrightarrow> speedaxis st' = speedaxis st)"
proof -
  note f = preliminary_fields [OF assms]
  let ?axis = "map (bin_speed (windowsize st) Fs) [0..<nat (windowsize st div 2)]"
  have a: "speedaxis0 (windowsize st) Fs = Inr ?axis" by (rule f(4))
  have b: "length ?axis = nat (windowsize st div 2)" by simp
  have c: "\<forall>k<nat (windowsize st div 2).
      ?axis ! k =
        double (double (double (real k *
          double (1 / double (real_of_int (windowsize st) * double (1 / Fs))))
            * 299000000) / 2440000000)"
    by (simp add: bin_speed_def c_def fc_def)
  have e: "0 < Fs \<longrightarrow>
      (\<forall>k<nat (windowsize st div 2).
         \<bar>?axis ! k - real k * Fs / real_of_int (windowsize st) * 299000000 / 2440000000\<bar>
           \<le> (real k * Fs / real_of_int (windowsize st) * 299000000 / 2440000000) / 2 ^ 50)"
  proof (intro impI allI)
    fix k
    assume Fs: "0 < Fs" and k: "k < nat (windowsize st div 2)"
    from k have "1 \<le> windowsize st" by linarith
    from bin_speed_near [OF Fs this, of k] k
    show "\<bar>?axis ! k - real k * Fs / real_of_int (windowsize st) * 299000000 / 2440000000\<bar>
           \<le> (real k * Fs / real_of_int (windowsize st) * 299000000 / 2440000000) / 2 ^ 50"
      by (simp add: c_def fc_def)
  qed
  have d: "speedaxis st = filter (\<lambda>s. s \<le> maxspeed) ?axis" by (rule f(5))
  have h: "\<forall>cbs st'. iterate cbs st = Inr st' \<longrightarrow> speedaxis st' = speedaxis st"
    using iterate_keeps by blast
  from a b c e d h show ?thesis by (intro exI [of _ ?axis] conjI)
qed

theorem speedaxis_bins_witness:
  "preliminary (1 / 256) (1 / 128) 30 2048 = Inr st8 \<and>
   speedaxis0 (windowsize st8) 2048 =
     Inr [0, 4415004224864847 / 2 ^ 47, 4415004224864847 / 2 ^ 46, 3311253168648635 / 2 ^ 45] \<and>
   speedaxis st8 =
     filter (\<lambda>s. s \<le> 30)
       [0, 4415004224864847 / 2 ^ 47, 4415004224864847 / 2 ^ 46, 3311253168648635 / 2 ^ 45] \<and>
   \<bar>4415004224864847 / 2 ^ 47 - real 1 * 2048 / real_of_int 8 * 299000000 / 2440000000\<bar>
     \<le> (real 1 * 2048 / real_of_int 8 * 299000000 / 2440000000) / 2 ^ 50 \<and>
   iterate [Some 1] st8 = Inr (st8\<lparr>rawbin := [1], cbyte := Some 1\<rparr>) \<and>
   speedaxis (st8\<lparr>rawbin := [1], cbyte := Some 1\<rparr>) = speedaxis st8"
proof -
  let ?axis = "[0, 4415004224864847 / 2 ^ 47, 4415004224864847 / 2 ^ 46,
                3311253168648635 / 2 ^ 45] :: real list"
  have s1: "bin_speed 8 2048 (Suc 0) = 4415004224864847 / 2 ^ 47" using b8_bin1 by simp
  have "speedaxis0 8 2048 = Inr (map (bin_speed 8 2048) [0..<nat (8 div 2)])"
    by (rule speedaxis0_ok) simp_all
  moreover have "nat (8 div 2) = 4" by simp
  ultimately have "speedaxis0 8 2048 = Inr (map (bin_speed 8 2048) [0..<4])"
    by (simp only:)
  then have ax: "speedaxis0 (windowsize st8) 2048 = Inr ?axis"
    by (simp add: upt_4 bin_speed_0 s1 b8_bin2 b8_bin3)
  have it: "iterate [Some 1] st8 = Inr (st8\<lparr>rawbin := [1], cbyte := Some 1\<rparr>)"
    by (simp add: step_def append_byte_def read_byte_def frame_ready_def)
  from speedaxis_bins [OF preliminary_8] obtain axis where
    a: "speedaxis0 (windowsize st8) 2048 = Inr axis"
       "speedaxis st8 = filter (\<lambda>s. s \<le> 30) axis"
       "\<forall>cbs st'. iterate cbs st8 = Inr st' \<longrightarrow> speedaxis st' = speedaxis st8"
       "0 < (2048::real) \<longrightarrow>
          (\<forall>k<nat (windowsize st8 div 2).
             \<bar>axis ! k - real k * 2048 / real_of_int (windowsize st8) * 299000000 / 2440000000\<bar>
               \<le> (real k * 2048 / real_of_int (windowsize st8) * 299000000 / 2440000000)
                    / 2 ^ 50)"
    by blast
  from a(1) ax have eq: "axis = ?axis" by (simp only: sum.inject)
  with a(2) have f: "speedaxis st8 = filter (\<lambda>s. s \<le> 30) ?axis" by (simp only:)
  from a(3) it have k: "speedaxis (st8\<lparr>rawbin := [1], cbyte := Some 1\<rparr>) = speedaxis st8"
    by blast
  have "0 < (2048::real)" "(1::nat) < nat (windowsize st8 div 2)" by simp_all
  with a(4) have
    "\<bar>axis ! 1 - real 1 * 2048 / real_of_int (windowsize st8) * 299000000 / 2440000000\<bar>
       \<le> (real 1 * 2048 / real_of_int (windowsize st8) * 299000000 / 2440000000) / 2 ^ 50"
    by blast
  then have n:
    "\<bar>4415004224864847 / 2 ^ 47 - real 1 * 2048 / real_of_int 8 * 299000000 / 2440000000\<bar>
       \<le> (real 1 * 2048 / real_of_int 8 * 299000000 / 2440000000) / 2 ^ 50"
    by (simp add: eq)
  from preliminary_8 ax f n it k show ?thesis by (intro conjI)
qed

subsection \<open>The length of a spectrum row\<close>

text \<open>
  Claim C1. Whenever the preliminary calculations succeed (any valid window size), the
  transform of a window of exactly \<open>windowsize\<close> samples succeeds and its row has length
  exactly \<open>K\<close>, the number of speed-axis entries that are at most \<open>maxspeed\<close>; this is
  also the length of the cropped speed axis and the width of the waterfall.
\<close>

theorem transform_length:
  assumes "preliminary cpi loopduration maxspeed Fs = Inr st"
      and "int (length d) = windowsize st"
  shows "\<exists>row axis. transform st d = Inr row \<and>
           speedaxis0 (windowsize st) Fs = Inr axis \<and>
           length row = length (filter (\<lambda>s. s \<le> maxspeed) axis) \<and>
           length row = length (speedaxis st) \<and>
           length row = ncols (doppler st)"
proof -
  note f = preliminary_fields [OF assms(1)]
  let ?axis = "map (bin_speed (windowsize st) Fs) [0..<nat (windowsize st div 2)]"
  have len: "length (han st) = length d" using f(3) assms(2) by (simp add: length_np_hanning)
  have ne: "d \<noteq> []" using f(2) assms(2) by auto
  from transform_ok [OF len ne] obtain m where
    m: "length m = length d" "transform st d = Inr (map decibel (take (length (speedaxis st)) m))"
    by blast
  have "length (speedaxis st) \<le> length ?axis" unfolding f(5) by (rule length_filter_le)
  also have "\<dots> \<le> length d" using assms(2) f(2) by simp
  finally have l: "length (map decibel (take (length (speedaxis st)) m)) = length (speedaxis st)"
    using m(1) by simp
  let ?row = "map decibel (take (length (speedaxis st)) m)"
  have k: "length ?row = length (filter (\<lambda>s. s \<le> maxspeed) ?axis)"
    using l by (simp only: f(5))
  have w: "length ?row = ncols (doppler st)"
    using l by (simp only: f(6))
  from m(2) f(4) k l w show ?thesis by blast
qed

theorem transform_length_witness:
  "preliminary 3 6 30 1 = Inr st3 \<and> int (length [1, 2, 3 :: real]) = windowsize st3 \<and>
   (\<exists>row axis. transform st3 [1, 2, 3] = Inr row \<and>
           speedaxis0 (windowsize st3) 1 = Inr axis \<and>
           length row = length (filter (\<lambda>s. s \<le> 30) axis) \<and>
           length row = length (speedaxis st3) \<and>
           length row = ncols (doppler st3))"
proof -
  have w: "int (length [1, 2, 3 :: real]) = windowsize st3" by simp
  from transform_length [OF preliminary_3 w] preliminary_3 w show ?thesis by blast
qed

subsection \<open>Cropping twice\<close>

text \<open>
  Claim C7. Filtering the speed axis to the entries at most \<open>maxspeed\<close> is idempotent:
  filtering a second time with the same bound gives the same sequence.
\<close>

theorem crop_idempotent: "crop maxspeed (crop maxspeed axis) = crop maxspeed axis"
  by (simp add: crop_filter)

subsection \<open>The direct slice and the one-sided spectrum\<close>

text \<open>
  Claim C10. For every window of length \<open>N\<close> and every \<open>K \<le> N/2\<close>, the first \<open>K\<close>
  magnitudes of the full transform (the slice \<open>[0:K]\<close> of the code) are the same as the
  one-sided spectrum of the first \<open>N/2\<close> magnitudes cropped to its first \<open>K\<close> bins (the
  specification's pipeline); both raise the same error when the transform raises.
\<close>

theorem kept_bins_refines:
  assumes "K \<le> length d div 2"
  shows "kept_bins K hn d = spec_one_sided_crop K hn d"
proof (cases "broadcast2 (*) hn d")
  case (Inl e)
  then show ?thesis by (simp add: kept_bins_def magnitudes_def spec_one_sided_crop_def)
next
  case (Inr w)
  show ?thesis
  proof (cases "np_fft (map complex_of_real w)")
    case (Inl e)
    with Inr show ?thesis by (simp add: kept_bins_def magnitudes_def spec_one_sided_crop_def)
  next
    case X: (Inr X)
    then have "length X = length w" "w \<noteq> []"
      by (auto simp: np_fft_def Let_def split: if_splits)
    with broadcast2_length [OF Inr] assms have "K \<le> length X div 2" by auto
    then have "take K (map cmod (take (length X div 2) X)) = take K (map cmod X)"
      by (simp add: take_map min_def)
    with Inr X \<open>length X = length w\<close> show ?thesis
      by (simp add: kept_bins_def magnitudes_def spec_one_sided_crop_def)
  qed
qed

theorem kept_bins_refines_witness:
  "(2::nat) \<le> length [1, 2, 3, 4 :: real] div 2 \<and>
   kept_bins 2 (np_hanning 4) [1, 2, 3, 4] = spec_one_sided_crop 2 (np_hanning 4) [1, 2, 3, 4]"
proof -
  have h: "(2::nat) \<le> length [1, 2, 3, 4 :: real] div 2" by simp
  from kept_bins_refines [OF h] h show ?thesis by blast
qed

subsection \<open>Lemmas on the waterfall update\<close>

lemma update_ok:
  assumes "rows a \<noteq> []" "length row = ncols a"
  shows "update a row = Inr (a\<lparr>rows := row # butlast (rows a)\<rparr>)"
  using assms by (simp add: update_def assign_row0_def np_roll1_def)

lemma update_Inr_D:
  assumes "update a row = Inr a'"
  shows "rows a \<noteq> [] \<and> (\<exists>r. length r = ncols a \<and> a' = a\<lparr>rows := r # butlast (rows a)\<rparr>)"
proof -
  from assms have ne: "rows a \<noteq> []"
    by (auto simp: update_def assign_row0_def np_roll1_def split: if_splits)
  show ?thesis
  proof (cases "length row = ncols a")
    case True
    with assms ne have "a' = a\<lparr>rows := row # butlast (rows a)\<rparr>"
      by (simp add: update_ok)
    with True ne show ?thesis by blast
  next
    case False
    with assms ne have "a' = a\<lparr>rows := replicate (ncols a) (hd row) # butlast (rows a)\<rparr>"
      by (auto simp: update_def assign_row0_def np_roll1_def split: if_splits)
    moreover have "length (replicate (ncols a) (hd row)) = ncols a" by simp
    ultimately show ?thesis using ne by blast
  qed
qed

lemma update_shape: "update a row = Inr a' \<Longrightarrow> shape a' = shape a"
  by (auto simp: shape_def dest!: update_Inr_D)

lemma updates_append:
  "updates a (rs @ [r]) = (case updates a rs of Inl e \<Rightarrow> Inl e | Inr a' \<Rightarrow> update a' r)"
  by (induction rs arbitrary: a) (auto split: sum.splits)

lemma updates_rows:
  assumes "rows a \<noteq> []" "\<forall>r\<in>set rs. length r = ncols a"
  shows "updates a rs = Inr (a\<lparr>rows := take (length (rows a)) (rev rs @ rows a)\<rparr>)"
  using assms(2)
proof (induction rs rule: rev_induct)
  case Nil
  then show ?case by simp
next
  case (snoc r rs)
  let ?n = "length (rows a)"
  let ?zs = "rev rs @ rows a"
  let ?a' = "a\<lparr>rows := take ?n ?zs\<rparr>"
  from snoc have u: "updates a rs = Inr ?a'" by simp
  have n: "0 < ?n" using assms(1) by simp
  have ne: "rows ?a' \<noteq> []" using assms(1) by simp
  have w: "length r = ncols ?a'" using snoc.prems by simp
  have "?n \<le> length ?zs" by simp
  then have "butlast (take ?n ?zs) = take (?n - 1) ?zs" by (rule butlast_take)
  then have "r # butlast (rows ?a') = take ?n (rev (rs @ [r]) @ rows a)"
    using n by (cases ?n) simp_all
  then show ?case
    by (simp only: updates_append u sum.case update_ok [OF ne w]) simp
qed

lemma transform_roll: "transform (roll_buffer st) d = transform st d"
  by (simp add: transform_def roll_buffer_def)

lemma transform_data: "transform (st\<lparr>data := d\<rparr>) x = transform st x"
  by (simp add: transform_def)

lemma store_row_roll:
  "store_row (roll_buffer st) =
     (case transform st (data st) of
        Inl e \<Rightarrow> Inl e
      | Inr row \<Rightarrow> (case update (doppler st) row of
                      Inl e \<Rightarrow> Inl e
                    | Inr a \<Rightarrow> Inr (st\<lparr>doppler := a\<rparr>)))"
  by (simp add: store_row_def transform_def roll_buffer_def update_def split: sum.splits)

lemma process_frame_update:
  assumes "process_frame st = Inr st'"
  shows "\<exists>d row. decode (rawbin st) = Inr d \<and> transform st d = Inr row \<and>
                 update (doppler st) row = Inr (doppler st') \<and> rawbin st' = [] \<and> data st' = d"
  using assms
proof -
  from assms obtain st2 st3 where
    a: "decode_frame st = Inr st2" "store_row (roll_buffer st2) = Inr st3" "st' = clear_rawbin st3"
    by (auto simp: process_frame_def split: sum.splits)
  from a(1) obtain d where d: "decode (rawbin st) = Inr d" "st2 = st\<lparr>data := d\<rparr>"
    by (auto simp: decode_frame_def split: sum.splits)
  have t: "transform st2 (data st2) = transform st d" using d by (simp add: transform_def)
  from a(2) obtain row a' where
    r: "transform st d = Inr row" "update (doppler st) row = Inr a'" "st3 = st2\<lparr>doppler := a'\<rparr>"
    unfolding store_row_roll t using d(2) by (auto split: sum.splits)
  from a(3) r(3) d(2) have "doppler st' = a'" "rawbin st' = []" "data st' = d"
    by (simp_all add: clear_rawbin_def)
  with d(1) r(1,2) show ?thesis by blast
qed

lemma step_update:
  assumes "step cb st = Inr st'"
  shows "doppler st' = doppler st \<or> (\<exists>row. update (doppler st) row = Inr (doppler st'))"
proof (cases "frame_ready (append_byte (read_byte cb st))")
  case True
  with assms have "process_frame (append_byte (read_byte cb st)) = Inr st'"
    by (simp add: step_def Let_def)
  from process_frame_update [OF this] obtain row where
    "update (doppler (append_byte (read_byte cb st))) row = Inr (doppler st')" by blast
  moreover have "doppler (append_byte (read_byte cb st)) = doppler st"
    by (simp add: append_byte_def read_byte_def split: option.splits)
  ultimately show ?thesis by auto
next
  case False
  with assms have "st' = append_byte (read_byte cb st)" by (simp add: step_def Let_def)
  then show ?thesis by (simp add: append_byte_def read_byte_def split: option.splits)
qed

lemma step_shape: "step cb st = Inr st' \<Longrightarrow> shape (doppler st') = shape (doppler st)"
  using step_update [of cb st st'] by (auto dest: update_shape)

lemma iterate_shape:
  "iterate cbs st = Inr st' \<Longrightarrow> shape (doppler st') = shape (doppler st)"
proof (induction cbs arbitrary: st)
  case Nil
  then show ?case by simp
next
  case (Cons cb cbs)
  then obtain st1 where s: "step cb st = Inr st1" and i: "iterate cbs st1 = Inr st'"
    by (auto split: sum.splits)
  from Cons.IH [OF i] step_shape [OF s] show ?case by simp
qed

lemma preliminary_inv:
  assumes "preliminary cpi loopduration maxspeed Fs = Inr st"
  shows "loop_inv st"
proof -
  note f = preliminary_fields [OF assms]
  let ?axis = "map (bin_speed (windowsize st) Fs) [0..<nat (windowsize st div 2)]"
  have "length (speedaxis st) \<le> length ?axis" unfolding f(5) by (rule length_filter_le)
  then have "length (speedaxis st) \<le> nat (windowsize st div 2)" by simp
  with f(2) have k: "int (length (speedaxis st)) \<le> windowsize st div 2" by linarith
  from f(2) f(3) f(6) k f(9) show ?thesis by (simp add: loop_inv_def length_np_hanning)
qed

lemma process_frame_ok:
  assumes inv: "1 \<le> windowsize st" "length (han st) = nat (windowsize st)"
      "ncols (doppler st) = length (speedaxis st)"
      "int (length (speedaxis st)) \<le> windowsize st div 2"
    and full: "int (length (rawbin st)) = 2 * windowsize st"
    and rows: "rows (doppler st) \<noteq> []"
  shows "\<exists>st'. process_frame st = Inr st'"
proof -
  let ?n = "length (rawbin st) div 2"
  have "even (int (length (rawbin st)))" unfolding full by simp
  then have ev: "even (length (rawbin st))" by simp
  have n: "int ?n = windowsize st" using full by simp
  let ?d = "map (pair_sample (rawbin st)) [0..<?n]"
  have d: "decode (rawbin st) = Inr ?d" by (rule decode_even [OF ev])
  have len: "length (han st) = length ?d" using inv(2) n by simp
  have ne: "?d \<noteq> []" using inv(1) n by auto
  from transform_ok [OF len ne] obtain m where
    m: "length m = length ?d"
       "transform st ?d = Inr (map decibel (take (length (speedaxis st)) m))"
    by blast
  let ?row = "map decibel (take (length (speedaxis st)) m)"
  have "length (speedaxis st) \<le> length m" using m(1) inv(4) n by simp
  then have w: "length ?row = ncols (doppler st)" using inv(3) by simp
  from update_ok [OF rows w] d m(2) show ?thesis
    by (simp add: process_frame_def decode_frame_def store_row_roll transform_data)
qed

lemma append_read_fields:
  "windowsize (append_byte (read_byte cb st)) = windowsize st"
  "han (append_byte (read_byte cb st)) = han st"
  "speedaxis (append_byte (read_byte cb st)) = speedaxis st"
  "doppler (append_byte (read_byte cb st)) = doppler st"
  "rawbin (append_byte (read_byte cb st)) = rawbin st @ (case cb of None \<Rightarrow> [] | Some b \<Rightarrow> [b])"
  by (simp_all add: append_byte_def read_byte_def split: option.splits)

lemma ready_iff:
  assumes "loop_inv st"
  shows "frame_ready (append_byte (read_byte cb st)) \<longleftrightarrow>
         int (length (rawbin (append_byte (read_byte cb st)))) = 2 * windowsize st"
  using assms
  by (cases cb) (auto simp: loop_inv_def frame_ready_def append_read_fields)

lemma step_inv:
  assumes "loop_inv st" "step cb st = Inr st'"
  shows "loop_inv st'"
proof (cases "frame_ready (append_byte (read_byte cb st))")
  case True
  with assms(2) have pf: "process_frame (append_byte (read_byte cb st)) = Inr st'"
    by (simp add: step_def Let_def)
  from process_frame_update [OF pf] obtain row where
    u: "update (doppler st) row = Inr (doppler st')" and r: "rawbin st' = []"
    by (auto simp: append_read_fields)
  from update_Inr_D [OF u] have "ncols (doppler st') = ncols (doppler st)" by auto
  with process_frame_keeps [OF pf] r assms(1) show ?thesis
    by (simp add: loop_inv_def append_read_fields)
next
  case False
  with assms(2) have "st' = append_byte (read_byte cb st)" by (simp add: step_def Let_def)
  with False assms(1) show ?thesis
    by (simp add: loop_inv_def frame_ready_def append_read_fields)
qed

lemma step_ok:
  assumes "loop_inv st" "rows (doppler st) \<noteq> []"
  shows "\<exists>st'. step cb st = Inr st'"
proof (cases "frame_ready (append_byte (read_byte cb st))")
  case True
  let ?s = "append_byte (read_byte cb st)"
  from True ready_iff [OF assms(1)] have "int (length (rawbin ?s)) = 2 * windowsize ?s"
    by (simp add: append_read_fields)
  moreover have "1 \<le> windowsize ?s" "length (han ?s) = nat (windowsize ?s)"
    "ncols (doppler ?s) = length (speedaxis ?s)"
    "int (length (speedaxis ?s)) \<le> windowsize ?s div 2" "rows (doppler ?s) \<noteq> []"
    using assms by (simp_all add: loop_inv_def append_read_fields)
  ultimately have "\<exists>st'. process_frame ?s = Inr st'"
    by (intro process_frame_ok)
  with True show ?thesis by (simp add: step_def Let_def)
next
  case False
  then show ?thesis by (simp add: step_def Let_def)
qed

lemma step_rawbin:
  assumes "step cb st = Inr st'"
  shows "rawbin st' = (if frame_ready (append_byte (read_byte cb st)) then []
                       else rawbin (append_byte (read_byte cb st)))"
proof (cases "frame_ready (append_byte (read_byte cb st))")
  case True
  with assms have "process_frame (append_byte (read_byte cb st)) = Inr st'"
    by (simp add: step_def Let_def)
  from process_frame_update [OF this] True show ?thesis by auto
next
  case False
  with assms show ?thesis by (simp add: step_def Let_def)
qed

lemma iterate_inv:
  "loop_inv st \<Longrightarrow> iterate cbs st = Inr st' \<Longrightarrow> loop_inv st'"
proof (induction cbs arbitrary: st)
  case Nil
  then show ?case by simp
next
  case (Cons cb cbs)
  from Cons.prems(2) obtain st1 where s: "step cb st = Inr st1" and i: "iterate cbs st1 = Inr st'"
    by (auto split: sum.splits)
  from step_inv [OF Cons.prems(1) s] i show ?case by (rule Cons.IH)
qed

lemma iterate_ok:
  "loop_inv st \<Longrightarrow> rows (doppler st) \<noteq> [] \<Longrightarrow> \<exists>st'. iterate cbs st = Inr st'"
proof (induction cbs arbitrary: st)
  case Nil
  then show ?case by simp
next
  case (Cons cb cbs)
  from step_ok [OF Cons.prems] obtain st1 where s: "step cb st = Inr st1" by blast
  from step_shape [OF s] Cons.prems(2) have "rows (doppler st1) \<noteq> []"
    by (auto simp: shape_def)
  from Cons.IH [OF step_inv [OF Cons.prems(1) s] this] s show ?case by simp
qed

lemma update_rect:
  assumes "rect a" "update a row = Inr a'"
  shows "rect a'"
proof -
  from update_Inr_D [OF assms(2)] obtain r where
    r: "length r = ncols a" "a' = a\<lparr>rows := r # butlast (rows a)\<rparr>" by blast
  have "\<forall>x\<in>set (butlast (rows a)). length x = ncols a"
    using assms(1) by (auto simp: rect_def list_all_iff dest: in_set_butlastD)
  with r show ?thesis by (simp add: rect_def list_all_iff)
qed

lemma step_rect:
  assumes "rect (doppler st)" "step cb st = Inr st'"
  shows "rect (doppler st')"
  using step_update [OF assms(2)] assms(1) by (auto dest: update_rect)

lemma iterate_rect:
  "rect (doppler st) \<Longrightarrow> iterate cbs st = Inr st' \<Longrightarrow> rect (doppler st')"
proof (induction cbs arbitrary: st)
  case Nil
  then show ?case by simp
next
  case (Cons cb cbs)
  from Cons.prems(2) obtain st1 where s: "step cb st = Inr st1" and i: "iterate cbs st1 = Inr st'"
    by (auto split: sum.splits)
  from step_rect [OF Cons.prems(1) s] i show ?case by (rule Cons.IH)
qed

lemma iterate_append:
  "iterate (xs @ ys) st = (case iterate xs st of Inl e \<Rightarrow> Inl e | Inr s \<Rightarrow> iterate ys s)"
  by (induction xs arbitrary: st) (auto split: sum.splits)

lemma iterate_snoc:
  "iterate cbs st0 = Inr st \<Longrightarrow> step cb st = Inr s \<Longrightarrow> iterate (cbs @ [cb]) st0 = Inr s"
  by (simp add: iterate_append)

lemma iterate_trans:
  "iterate xs st = Inr s \<Longrightarrow> iterate ys s = Inr t \<Longrightarrow> iterate (xs @ ys) st = Inr t"
  by (simp add: iterate_append)

subsection \<open>A frame of six zero bytes\<close>

lemma decode_six_zero:
  "decode [0, 0, 0, 0, 0, 0] = Inr [- (33 / 20), - (33 / 20), - (33 / 20)]"
  by (simp add: decode_def raw12bit_def broadcast2_def volt_def Vref_def)

lemma transform_row1:
  assumes "han st = np_hanning 3" "speedaxis st = [0]"
  shows "transform st [- (33 / 20), - (33 / 20), - (33 / 20)] = Inr row1"
  using assms
  by (simp add: transform_def kept_bins_def magnitudes_def broadcast2_def np_hanning_3 np_fft_def
      upt_3 decibel_def np_log10_def)

lemma row1_not_zero: "row1 \<noteq> [Finite 0]"
proof -
  have pos: "0 < log 10 (33 / 20 :: real)"
    by (subst zero_less_log_cancel_iff) simp_all
  have "log 10 (33 / 20 :: real) \<noteq> 0"
  proof
    assume "log 10 (33 / 20 :: real) = 0"
    with pos have "(0::real) < 0" by (simp only:)
    then show False by simp
  qed
  then show ?thesis by simp
qed

lemma step_st3_frame1:
  "step (Some 0) (st3\<lparr>rawbin := [0, 0, 0, 0, 0], cbyte := Some 0\<rparr>) = Inr st3_frame1"
  by (simp add: step_def read_byte_def append_byte_def frame_ready_def process_frame_def
      decode_frame_def decode_six_zero store_row_def roll_buffer_def transform_row1
      np_roll1_def assign_row0_def clear_rawbin_def)

lemma iterate_st3_five_zero:
  "iterate [Some 0, Some 0, Some 0, Some 0, Some 0] st3 =
     Inr (st3\<lparr>rawbin := [0, 0, 0, 0, 0], cbyte := Some 0\<rparr>)"
  by (simp add: step_def read_byte_def append_byte_def frame_ready_def)

lemma iterate_frame1_five_zero:
  "iterate [Some 0, Some 0, Some 0, Some 0, Some 0] st3_frame1 = Inr st3_five"
  by (simp add: step_def read_byte_def append_byte_def frame_ready_def)

lemma iterate_st3_six:
  "iterate [Some 0, Some 0, Some 0, Some 0, Some 0, Some 0] st3 = Inr st3_frame1"
proof -
  have one: "iterate [Some 0] (st3\<lparr>rawbin := [0, 0, 0, 0, 0], cbyte := Some 0\<rparr>) = Inr st3_frame1"
    by (simp only: iterate.simps step_st3_frame1 sum.case)
  from iterate_trans [OF iterate_st3_five_zero one]
  show ?thesis by (simp only: append.simps)
qed

lemma iterate_st3_eleven:
  "iterate [Some 0, Some 0, Some 0, Some 0, Some 0, Some 0, Some 0, Some 0, Some 0, Some 0, Some 0]
     st3 = Inr st3_five"
proof -
  have one: "iterate [Some 0] (st3\<lparr>rawbin := [0, 0, 0, 0, 0], cbyte := Some 0\<rparr>) = Inr st3_frame1"
    by (simp only: iterate.simps step_st3_frame1 sum.case)
  from iterate_trans [OF iterate_st3_five_zero iterate_trans [OF one iterate_frame1_five_zero]]
  show ?thesis by (simp only: append.simps)
qed

subsection \<open>The waterfall as a queue\<close>

text \<open>
  Claim C4. Starting from a buffer of \<open>depth\<close> rows (in particular the freshly
  initialised one), \<open>depth\<close> updates with rows of the buffer's width leave exactly those
  rows, the newest at index 0 and the oldest at index \<open>depth-1\<close>; one more update evicts
  the original oldest row and, when the rows are distinct, no other.
\<close>

theorem waterfall_fifo:
  assumes "length (rows a) = depth" "0 < depth" "length rs = depth"
      and "\<forall>x\<in>set rs. length x = ncols a" "length r = ncols a"
  shows "updates a rs = Inr (a\<lparr>rows := rev rs\<rparr>) \<and>
         (\<forall>i<depth. rev rs ! i = rs ! (depth - 1 - i)) \<and>
         updates a (rs @ [r]) = Inr (a\<lparr>rows := r # rev (tl rs)\<rparr>) \<and>
         (distinct (rs @ [r]) \<longrightarrow>
            rs ! 0 \<notin> set (r # rev (tl rs)) \<and> set (r # rev (tl rs)) = set (rs @ [r]) - {rs ! 0})"
proof -
  have ne: "rows a \<noteq> []" using assms(1,2) by auto
  have rs: "rs \<noteq> []" using assms(2,3) by auto
  have 1: "updates a rs = Inr (a\<lparr>rows := rev rs\<rparr>)"
    using updates_rows [OF ne assms(4)] assms(1,3) by simp
  have 2: "\<forall>i<depth. rev rs ! i = rs ! (depth - 1 - i)"
    using assms(3) by (simp add: rev_nth)
  have all: "\<forall>x\<in>set (rs @ [r]). length x = ncols a" using assms(4,5) by simp
  from rs obtain x xs where xs: "rs = x # xs" by (cases rs) auto
  with assms(3) have "depth = Suc (length xs)" by simp
  with xs have "take depth (rev (rs @ [r]) @ rows a) = r # rev (tl rs)" by simp
  then have 3: "updates a (rs @ [r]) = Inr (a\<lparr>rows := r # rev (tl rs)\<rparr>)"
    using updates_rows [OF ne all] assms(1) by simp
  have 4: "rs ! 0 \<notin> set (r # rev (tl rs)) \<and> set (r # rev (tl rs)) = set (rs @ [r]) - {rs ! 0}"
    if "distinct (rs @ [r])"
    using that rs by (cases rs) auto
  from 1 2 3 4 show ?thesis by blast
qed

theorem waterfall_fifo_witness:
  "length (rows (doppler st3)) = 2 \<and> (0::nat) < 2 \<and> length [[Finite 1], [Finite 2]] = 2 \<and>
   length [Finite 1] = ncols (doppler st3) \<and> length [Finite 2] = ncols (doppler st3) \<and>
   length [Finite 3] = ncols (doppler st3) \<and> distinct ([[Finite 1], [Finite 2]] @ [[Finite 3]]) \<and>
   updates (doppler st3) [[Finite 1], [Finite 2]] = Inr \<lparr>ncols = 1, rows = [[Finite 2], [Finite 1]]\<rparr> \<and>
   updates (doppler st3) [[Finite 1], [Finite 2], [Finite 3]] =
     Inr \<lparr>ncols = 1, rows = [[Finite 3], [Finite 2]]\<rparr>"
  using waterfall_fifo [of "doppler st3" 2 "[[Finite 1], [Finite 2]]" "[Finite 3]"]
  by simp

lemma step_st3_five:
  "step (Some 0) st3_five =
     Inr (st3_five\<lparr>rawbin := [], doppler := \<lparr>ncols = 1, rows = [row1, row1]\<rparr>\<rparr>)"
  by (simp add: step_def read_byte_def append_byte_def frame_ready_def process_frame_def
      decode_frame_def decode_six_zero store_row_def roll_buffer_def transform_row1
      np_roll1_def assign_row0_def clear_rawbin_def)

lemma rect_zeros: "rect \<lparr>ncols = w, rows = replicate n (replicate w x)\<rparr>"
  by (simp add: rect_def list_all_iff)

subsection \<open>The dimensions of the waterfall\<close>

text \<open>
  Claim C5. The waterfall is initialised to \<open>int(loopduration/cpi)\<close> rows (the floor of
  the double quotient, when that is not negative) of \<open>K\<close> zeros, \<open>K\<close> the length of the
  cropped speed axis; every update and every iteration of the loop leaves the number of
  rows unchanged and every row \<open>K\<close> wide; and an iteration changes the waterfall only by
  an update.
\<close>

theorem waterfall_dimensions:
  assumes "preliminary cpi loopduration maxspeed Fs = Inr st0" "iterate cbs st0 = Inr st"
  shows "shape (doppler st0) =
           (nat (py_int (double (loopduration / cpi))), length (speedaxis st0)) \<and>
         (0 \<le> double (loopduration / cpi) \<longrightarrow>
            int (length (rows (doppler st0))) = \<lfloor>double (loopduration / cpi)\<rfloor>) \<and>
         rows (doppler st0) =
           replicate (nat (py_int (double (loopduration / cpi))))
             (replicate (length (speedaxis st0)) (Finite 0)) \<and>
         shape (doppler st) = shape (doppler st0) \<and>
         (\<forall>r\<in>set (rows (doppler st)). length r = length (speedaxis st0)) \<and>
         (\<forall>a row a'. rect a \<and> update a row = Inr a' \<longrightarrow> shape a' = shape a \<and> rect a') \<and>
         (\<forall>cb st'. step cb st = Inr st' \<longrightarrow>
            shape (doppler st') = shape (doppler st) \<and>
            (\<forall>r\<in>set (rows (doppler st')). length r = length (speedaxis st0)) \<and>
            (doppler st' = doppler st \<or> (\<exists>row. update (doppler st) row = Inr (doppler st'))))"
proof -
  note f = preliminary_fields [OF assms(1)]
  let ?K = "length (speedaxis st0)"
  let ?n = "nat (py_int (double (loopduration / cpi)))"
  have 1: "shape (doppler st0) = (?n, ?K)"
    using f(6) f(7) by (simp add: shape_def)
  have 2: "0 \<le> double (loopduration / cpi) \<longrightarrow>
      int (length (rows (doppler st0))) = \<lfloor>double (loopduration / cpi)\<rfloor>"
    using f(7) by (simp add: py_int_def)
  have 3: "rows (doppler st0) = replicate ?n (replicate ?K (Finite 0))" by (rule f(7))
  have r0: "rect (doppler st0)"
    using f(6) f(7) by (simp add: rect_def list_all_iff)
  have 4: "shape (doppler st) = shape (doppler st0)"
    by (rule iterate_shape [OF assms(2)])
  with 1 have nc: "ncols (doppler st) = ?K" by (simp add: shape_def)
  have r: "rect (doppler st)" using r0 assms(2) by (rule iterate_rect)
  then have 5: "\<forall>r\<in>set (rows (doppler st)). length r = ?K"
    using nc by (simp add: rect_def list_all_iff)
  have 6: "\<forall>a row a'. rect a \<and> update a row = Inr a' \<longrightarrow> shape a' = shape a \<and> rect a'"
    using update_shape update_rect by blast
  have 7: "\<forall>cb st'. step cb st = Inr st' \<longrightarrow>
            shape (doppler st') = shape (doppler st) \<and>
            (\<forall>r\<in>set (rows (doppler st')). length r = ?K) \<and>
            (doppler st' = doppler st \<or> (\<exists>row. update (doppler st) row = Inr (doppler st')))"
  proof (intro allI impI)
    fix cb st' assume s: "step cb st = Inr st'"
    have a: "shape (doppler st') = shape (doppler st)" by (rule step_shape [OF s])
    with nc have "ncols (doppler st') = ?K" by (simp add: shape_def)
    with step_rect [OF r s] have b: "\<forall>r\<in>set (rows (doppler st')). length r = ?K"
      by (simp add: rect_def list_all_iff)
    from a b step_update [OF s]
    show "shape (doppler st') = shape (doppler st) \<and>
            (\<forall>r\<in>set (rows (doppler st')). length r = ?K) \<and>
            (doppler st' = doppler st \<or> (\<exists>row. update (doppler st) row = Inr (doppler st')))"
      by (intro conjI)
  qed
  show ?thesis by (intro conjI; fact)
qed

theorem waterfall_dimensions_witness:
  "preliminary 3 6 30 1 = Inr st3 \<and>
   iterate [Some 0, Some 0, Some 0, Some 0, Some 0, Some 0, Some 0, Some 0, Some 0, Some 0, Some 0]
     st3 = Inr st3_five \<and>
   shape (doppler st3) = (2, 1) \<and>
   doppler st3_five = \<lparr>ncols = 1, rows = [row1, [Finite 0]]\<rparr> \<and>
   shape (doppler st3_five) = (2, 1) \<and>
   step (Some 0) st3_five =
     Inr (st3_five\<lparr>rawbin := [], doppler := \<lparr>ncols = 1, rows = [row1, row1]\<rparr>\<rparr>) \<and>
   update (doppler st3_five) row1 = Inr \<lparr>ncols = 1, rows = [row1, row1]\<rparr> \<and>
   shape \<lparr>ncols = 1, rows = [row1, row1]\<rparr> = (2, 1) \<and>
   length row1 = length (speedaxis st3)"
proof -
  let ?t = "st3_five\<lparr>rawbin := [], doppler := \<lparr>ncols = 1, rows = [row1, row1]\<rparr>\<rparr>"
  note w = waterfall_dimensions [OF preliminary_3 iterate_st3_eleven]
  have a: "shape (doppler st3) = (2, 1)" by (simp add: shape_def)
  have d: "doppler st3_five = \<lparr>ncols = 1, rows = [row1, [Finite 0]]\<rparr>" by simp
  from w have "shape (doppler st3_five) = shape (doppler st3)" by blast
  then have b: "shape (doppler st3_five) = (2, 1)" by (simp only: a)
  from w step_st3_five have "shape (doppler ?t) = shape (doppler st3_five)" by blast
  then have "shape (doppler ?t) = (2, 1)" by (simp only: b)
  then have c: "shape \<lparr>ncols = 1, rows = [row1, row1]\<rparr> = (2, 1)" by simp
  have u: "update (doppler st3_five) row1 = Inr \<lparr>ncols = 1, rows = [row1, row1]\<rparr>"
    by (simp add: update_def np_roll1_def assign_row0_def)
  have l: "length row1 = length (speedaxis st3)" by simp
  from preliminary_3 iterate_st3_eleven a d b step_st3_five u c l show ?thesis by (intro conjI)
qed

subsection \<open>The byte framer\<close>

text \<open>
  Claim C8. At the top of the loop fewer than \<open>2*windowsize\<close> bytes are waiting, with
  \<open>windowsize = floor(cpi*Fs)\<close>, the product being the double one (1000 samples and
  2000 bytes for \<open>cpi = 0.5\<close> and \<open>Fs = 2000\<close>); a read appends at most one byte; the
  frame is processed exactly when the count reaches \<open>2*windowsize\<close>; after a processed
  frame the accumulator is empty, otherwise it keeps the appended byte; and with at least
  one row in the waterfall the iteration cannot raise.
\<close>

theorem framer_ready:
  assumes "preliminary cpi loopduration maxspeed Fs = Inr st0" "iterate cbs st0 = Inr st"
  shows "windowsize st = \<lfloor>double (cpi * Fs)\<rfloor> \<and> rawbin st0 = [] \<and>
         int (length (rawbin st)) < 2 * windowsize st \<and>
         rawbin (append_byte (read_byte cb st)) =
           rawbin st @ (case cb of None \<Rightarrow> [] | Some b \<Rightarrow> [b]) \<and>
         (frame_ready (append_byte (read_byte cb st)) \<longleftrightarrow>
            int (length (rawbin (append_byte (read_byte cb st)))) = 2 * windowsize st) \<and>
         (\<forall>st'. step cb st = Inr st' \<longrightarrow>
            rawbin st' = (if frame_ready (append_byte (read_byte cb st)) then []
                          else rawbin (append_byte (read_byte cb st)))) \<and>
         (rows (doppler st0) \<noteq> [] \<longrightarrow> (\<exists>st'. step cb st = Inr st')) \<and>
         (cpi = 1 / 2 \<and> Fs = 2000 \<longrightarrow> windowsize st = 1000 \<and> 2 * windowsize st = 2000)"
proof -
  note f = preliminary_fields [OF assms(1)]
  have ws: "windowsize st = \<lfloor>double (cpi * Fs)\<rfloor>"
    using iterate_keeps [OF assms(2)] f(1) by simp
  have r0: "rawbin st0 = []" by (rule f(9))
  have inv: "loop_inv st"
    using preliminary_inv [OF assms(1)] assms(2) by (rule iterate_inv)
  then have 3: "int (length (rawbin st)) < 2 * windowsize st" by (simp add: loop_inv_def)
  have 4: "rawbin (append_byte (read_byte cb st)) =
           rawbin st @ (case cb of None \<Rightarrow> [] | Some b \<Rightarrow> [b])"
    by (rule append_read_fields)
  note 5 = ready_iff [OF inv, of cb]
  have 6: "\<forall>st'. step cb st = Inr st' \<longrightarrow>
            rawbin st' = (if frame_ready (append_byte (read_byte cb st)) then []
                          else rawbin (append_byte (read_byte cb st)))"
    using step_rawbin by blast
  have 7: "rows (doppler st0) \<noteq> [] \<longrightarrow> (\<exists>st'. step cb st = Inr st')"
  proof
    assume "rows (doppler st0) \<noteq> []"
    with iterate_shape [OF assms(2)] have "rows (doppler st) \<noteq> []" by (auto simp: shape_def)
    with inv show "\<exists>st'. step cb st = Inr st'" by (rule step_ok)
  qed
  have 8: "cpi = 1 / 2 \<and> Fs = 2000 \<longrightarrow> windowsize st = 1000 \<and> 2 * windowsize st = 2000"
  proof
    assume "cpi = 1 / 2 \<and> Fs = 2000"
    then have "cpi * Fs = 1000" by auto
    then have "\<lfloor>double (cpi * Fs)\<rfloor> = 1000" by (simp only: double_1000 floor_numeral)
    then show "windowsize st = 1000 \<and> 2 * windowsize st = 2000" by (simp only: ws) simp
  qed
  show ?thesis by (intro conjI; fact)
qed

theorem framer_ready_witness:
  "preliminary (1 / 2) 60 30 2000 = Inr st_default \<and> iterate [] st_default = Inr st_default \<and>
   windowsize st_default = 1000 \<and>
   preliminary 3 6 30 1 = Inr st3 \<and>
   iterate [Some 0, Some 0, Some 0, Some 0, Some 0] st3 =
     Inr (st3\<lparr>rawbin := [0, 0, 0, 0, 0], cbyte := Some 0\<rparr>) \<and>
   rawbin (append_byte (read_byte (Some 0) (st3\<lparr>rawbin := [0, 0, 0, 0, 0], cbyte := Some 0\<rparr>))) =
     [0, 0, 0, 0, 0, 0] \<and>
   frame_ready (append_byte (read_byte (Some 0) (st3\<lparr>rawbin := [0, 0, 0, 0, 0], cbyte := Some 0\<rparr>))) \<and>
   step (Some 0) (st3\<lparr>rawbin := [0, 0, 0, 0, 0], cbyte := Some 0\<rparr>) = Inr st3_frame1 \<and>
   rawbin st3_frame1 = []"
proof -
  let ?s = "st3\<lparr>rawbin := [0, 0, 0, 0, 0], cbyte := Some 0\<rparr>"
  have i: "iterate [] st_default = Inr st_default" by simp
  from framer_ready [OF preliminary_default i, of None]
  have w: "windowsize st_default = 1000" by simp
  note g = framer_ready [OF preliminary_3 iterate_st3_five_zero, of "Some 0"]
  have a: "rawbin (append_byte (read_byte (Some 0) ?s)) = [0, 0, 0, 0, 0, 0]"
    by (simp add: append_byte_def read_byte_def)
  from g have "frame_ready (append_byte (read_byte (Some 0) ?s)) \<longleftrightarrow>
      int (length (rawbin (append_byte (read_byte (Some 0) ?s)))) = 2 * windowsize ?s"
    by blast
  then have n: "frame_ready (append_byte (read_byte (Some 0) ?s))"
    by (simp only: a) simp
  from g step_st3_frame1 n have "rawbin st3_frame1 = []" by simp
  with preliminary_default i w preliminary_3 iterate_st3_five_zero a n step_st3_frame1
  show ?thesis by (intro conjI)
qed

subsection \<open>Lemmas on the all-zero window\<close>

lemma sum_list_zero_window:
  "\<forall>x\<in>set xs. x = 0 \<Longrightarrow> sum_list (map2 (\<lambda>x j. x * g j) xs js) = (0::complex)"
proof (induction xs arbitrary: js)
  case Nil
  then show ?case by simp
next
  case (Cons x xs)
  then show ?case by (cases js) simp_all
qed

lemma np_fft_zero:
  assumes "xs \<noteq> []" "\<forall>x\<in>set xs. x = 0"
  shows "np_fft xs = Inr (replicate (length xs) 0)"
  using assms by (simp add: np_fft_def Let_def sum_list_zero_window map_replicate_const)

lemma magnitudes_zero:
  assumes "length hn = length d" "d \<noteq> []" "\<forall>x\<in>set d. x = 0"
  shows "magnitudes hn d = Inr (replicate (length d) 0)"
proof -
  let ?w = "map complex_of_real (map2 (*) hn d)"
  have z: "\<forall>x\<in>set ?w. x = 0" using assms(3) by (auto dest: set_zip_rightD)
  have ne: "?w \<noteq> []" using assms(1,2) by (cases hn; cases d) simp_all
  from np_fft_zero [OF ne z] assms(1) show ?thesis
    by (simp add: magnitudes_def broadcast2_def)
qed

lemma magnitudes_nonneg: "magnitudes hn d = Inr m \<Longrightarrow> \<forall>x\<in>set m. 0 \<le> x"
  by (auto simp: magnitudes_def split: sum.splits)

lemma decibel_cases: "0 \<le> x \<Longrightarrow> decibel x = (if x = 0 then NegInf else Finite (20 * log 10 x))"
  by (simp add: decibel_def np_log10_def)

lemma decode_zero_frame: "decode [8, 0, 8, 0, 8, 0] = Inr [0, 0, 0]"
  by (simp add: decode_def raw12bit_def broadcast2_def volt_def Vref_def)

lemma transform_st3_zero: "transform st3 [0, 0, 0] = Inr [NegInf]"
  by (simp add: transform_def kept_bins_def magnitudes_def broadcast2_def np_hanning_3 np_fft_def
      upt_3 decibel_def np_log10_def)

subsection \<open>The decibel conversion at magnitude zero\<close>

text \<open>
  The window of three samples decoded from the bytes \<open>8, 0\<close> repeated is all zero, and
  its row is \<open>-inf\<close>: line 98 takes the logarithm of the magnitude as it is.
\<close>

theorem zero_window_counterexample:
  "preliminary 3 6 30 1 = Inr st3 \<and> decode [8, 0, 8, 0, 8, 0] = Inr [0, 0, 0] \<and>
   transform st3 [0, 0, 0] = Inr [NegInf]"
  by (intro conjI preliminary_3 decode_zero_frame transform_st3_zero)

text \<open>
  Claim C3, as the code has it. For a window of \<open>windowsize\<close> samples the row has one
  entry per retained bin, \<open>-inf\<close> exactly where the magnitude \<open>|X[k]|\<close> is 0 and the
  finite \<open>20*log10|X[k]|\<close> elsewhere, and never \<open>nan\<close>; no floor is applied, so the row
  of an all-zero window is \<open>-inf\<close> in every bin.
\<close>

theorem decibel_without_floor:
  assumes "preliminary cpi loopduration maxspeed Fs = Inr st"
      and "int (length d) = windowsize st"
  shows "(\<exists>m row. kept_bins (length (speedaxis st)) (han st) d = Inr m \<and>
            transform st d = Inr row \<and> length row = length (speedaxis st) \<and>
            length m = length (speedaxis st) \<and> NaN \<notin> set row \<and>
            (\<forall>k<length (speedaxis st).
               row ! k = (if m ! k = 0 then NegInf else Finite (20 * log 10 (m ! k))))) \<and>
         ((\<forall>x\<in>set d. x = 0) \<longrightarrow>
            transform st d = Inr (replicate (length (speedaxis st)) NegInf))"
proof -
  let ?K = "length (speedaxis st)"
  from preliminary_inv [OF assms(1)]
  have inv: "1 \<le> windowsize st" "length (han st) = nat (windowsize st)"
    "int ?K \<le> windowsize st div 2"
    by (simp_all add: loop_inv_def)
  have len: "length (han st) = length d" using inv(2) assms(2) by simp
  have ne: "d \<noteq> []" using inv(1) assms(2) by auto
  have K: "?K \<le> length d" using inv(3) assms(2) by linarith
  from magnitudes_ok [OF len ne] obtain m0 where
    m0: "magnitudes (han st) d = Inr m0" "length m0 = length d" by blast
  let ?m = "take ?K m0"
  let ?row = "map decibel ?m"
  have kb: "kept_bins ?K (han st) d = Inr ?m" using m0 by (simp add: kept_bins_def)
  have tr: "transform st d = Inr ?row" using kb by (simp add: transform_def)
  have lm: "length ?m = ?K" using K m0(2) by simp
  have nn: "\<forall>x\<in>set ?m. 0 \<le> x"
    using magnitudes_nonneg [OF m0(1)] by (auto dest: in_set_takeD)
  have bins: "\<forall>k<?K. ?row ! k = (if ?m ! k = 0 then NegInf else Finite (20 * log 10 (?m ! k)))"
  proof (intro allI impI)
    fix k assume k: "k < ?K"
    then have "?m ! k \<in> set ?m" using lm by (metis nth_mem)
    with nn have "0 \<le> ?m ! k" by blast
    then show "?row ! k = (if ?m ! k = 0 then NegInf else Finite (20 * log 10 (?m ! k)))"
      using k lm by (simp only: nth_map decibel_cases)
  qed
  have nan: "NaN \<notin> set ?row"
  proof
    assume "NaN \<in> set ?row"
    then obtain x where "x \<in> set ?m" "decibel x = NaN" by auto
    with nn show False by (auto simp: decibel_cases split: if_splits)
  qed
  have 1: "\<exists>m row. kept_bins ?K (han st) d = Inr m \<and>
            transform st d = Inr row \<and> length row = ?K \<and> length m = ?K \<and> NaN \<notin> set row \<and>
            (\<forall>k<?K. row ! k = (if m ! k = 0 then NegInf else Finite (20 * log 10 (m ! k))))"
    using kb tr lm nan bins by (intro exI [of _ ?m] exI [of _ ?row]) simp
  have 2: "(\<forall>x\<in>set d. x = 0) \<longrightarrow> transform st d = Inr (replicate ?K NegInf)"
  proof
    assume z: "\<forall>x\<in>set d. x = 0"
    from magnitudes_zero [OF len ne z] m0(1) have "m0 = replicate (length d) 0" by simp
    then have "?m = replicate ?K 0" using K by (simp add: min_def)
    then have "?row = replicate ?K NegInf" by (simp add: decibel_def np_log10_def)
    with tr show "transform st d = Inr (replicate ?K NegInf)" by simp
  qed
  from 1 2 show ?thesis by blast
qed

theorem decibel_without_floor_witness:
  "preliminary (1 / 256) (1 / 128) 30 2048 = Inr st8 \<and>
   int (length (replicate 8 (0::real))) = windowsize st8 \<and>
   transform st8 (replicate 8 0) = Inr [NegInf]"
proof -
  have l: "int (length (replicate 8 (0::real))) = windowsize st8" by simp
  from decibel_without_floor [OF preliminary_8 l]
  have "transform st8 (replicate 8 0) = Inr (replicate (length (speedaxis st8)) NegInf)"
    by simp
  then have "transform st8 (replicate 8 0) = Inr [NegInf]" by simp
  with preliminary_8 l show ?thesis by (intro conjI)
qed

subsection \<open>Lemmas on the statements and the interrupt\<close>

lemma step_not_ready:
  "\<not> frame_ready (append_byte (read_byte cb st)) \<Longrightarrow>
   step cb st = Inr (append_byte (read_byte cb st))"
  by (simp add: step_def Let_def)

lemma step_ready:
  assumes "frame_ready (append_byte (read_byte cb st))"
      and "decode_frame (append_byte (read_byte cb st)) = Inr s2"
      and "store_row (roll_buffer s2) = Inr s3"
  shows "step cb st = Inr (clear_rawbin s3)"
  using assms by (simp add: step_def Let_def process_frame_def)

lemma decode_frame_doppler: "decode_frame s = Inr s2 \<Longrightarrow> doppler s2 = doppler s"
  by (auto simp: decode_frame_def split: sum.splits)

lemma read_byte_doppler: "doppler (read_byte cb st) = doppler st"
  by (simp add: read_byte_def)

lemma np_roll1_shape: "shape (np_roll1 a) = shape a"
  by (cases "rows a") (simp_all add: shape_def np_roll1_def)

lemma run_whole_iteration:
  "run [Stmt cb, Stmt x1, Stmt x2, Stmt x3, Stmt x4, Stmt x5, Stmt x6, Stmt x7] (Running L87 st) =
     (if frame_ready (append_byte (read_byte cb st))
      then (case step cb st of Inl e \<Rightarrow> Raised e | Inr st' \<Rightarrow> Running L87 st')
      else run [Stmt x3, Stmt x4, Stmt x5, Stmt x6, Stmt x7]
             (Running L87 (append_byte (read_byte cb st))))"
  by (simp add: step_def Let_def process_frame_def split: sum.splits)

lemma run_st3_five_in_flight:
  "run [Stmt (Some 0), Stmt None, Stmt None, Stmt None, Stmt None] (Running L87 st3_five) =
     Running L98 (st3_five\<lparr>rawbin := [0, 0, 0, 0, 0, 0],
                    doppler := \<lparr>ncols = 1, rows = [[Finite 0], row1]\<rparr>\<rparr>)"
  by (simp add: read_byte_def append_byte_def frame_ready_def decode_frame_def decode_six_zero
      roll_buffer_def np_roll1_def)

lemma run_st3_five_interrupted:
  "run [Stmt (Some 0), Stmt None, Stmt None, Stmt None, Stmt None, KeyboardInterrupt]
     (Running L87 st3_five) = Returned \<lparr>ncols = 1, rows = [[Finite 0], row1]\<rparr>"
  by (simp add: read_byte_def append_byte_def frame_ready_def decode_frame_def decode_six_zero
      roll_buffer_def np_roll1_def)

lemma run_append: "run (xs @ ys) out = run ys (run xs out)"
proof (induction xs arbitrary: out)
  case Nil
  then show ?case by (cases out) simp_all
next
  case (Cons ev xs)
  show ?case
  proof (cases out)
    case (Running p st)
    then show ?thesis
      by (cases ev) (auto simp: Cons.IH split: sum.splits prod.splits intro: run.simps)
  next
    case (Returned a)
    then show ?thesis by (cases ys) simp_all
  next
    case (Raised e)
    then show ?thesis by (cases ys) simp_all
  qed
qed

lemma run_final:
  "run evs (Returned a) = Returned a" "run evs (Raised e) = Raised e"
  by (cases evs; simp)+

lemma top_reads_snoc:
  assumes "run pre (Running p0 s0) = Running p s"
  shows "top_reads (pre @ [Stmt cb]) p0 s0 = top_reads pre p0 s0 @ (if p = L87 then [cb] else [])"
  using assms
proof (induction pre arbitrary: p0 s0)
  case Nil
  then show ?case by (auto split: sum.splits prod.splits)
next
  case (Cons ev pre)
  show ?case
  proof (cases ev)
    case KeyboardInterrupt
    with Cons.prems show ?thesis by simp
  next
    case (Stmt c0)
    show ?thesis
    proof (cases "exec c0 p0 s0")
      case (Inl e)
      with Stmt Cons.prems show ?thesis by (simp add: run_final)
    next
      case (Inr ps)
      obtain p1 s1 where ps: "ps = (p1, s1)" by (cases ps)
      with Inr Stmt Cons.prems have "run pre (Running p1 s1) = Running p s" by simp
      from Cons.IH [OF this] Inr ps Stmt show ?thesis by simp
    qed
  qed
qed

lemma run_snoc_Running:
  assumes "run (pre @ [Stmt cb]) (Running p0 s0) = Running p s"
  shows "\<exists>p' s'. run pre (Running p0 s0) = Running p' s' \<and> exec cb p' s' = Inr (p, s)"
proof (cases "run pre (Running p0 s0)")
  case (Running p' s')
  with assms have "run [Stmt cb] (Running p' s') = Running p s" by (simp add: run_append)
  then have "exec cb p' s' = Inr (p, s)" by (auto split: sum.splits prod.splits)
  with Running show ?thesis by blast
next
  case (Returned a)
  with assms show ?thesis by (simp add: run_append)
next
  case (Raised e)
  with assms show ?thesis by (simp add: run_append)
qed

lemma run_invariant:
  assumes "KeyboardInterrupt \<notin> set pre" "run pre (Running L87 st0) = Running p s"
  shows "(p = L87 \<longrightarrow> iterate (top_reads pre L87 st0) st0 = Inr s) \<and>
         (p \<noteq> L87 \<longrightarrow> top_reads pre L87 st0 \<noteq> [] \<and>
            (\<exists>st. iterate (butlast (top_reads pre L87 st0)) st0 = Inr st \<and>
                  at_point st (last (top_reads pre L87 st0)) p s))"
  using assms
proof (induction pre arbitrary: p s rule: rev_induct)
  case Nil
  then show ?case by simp
next
  case (snoc ev pre)
  from snoc.prems(1) have ki: "KeyboardInterrupt \<notin> set pre" and "ev \<noteq> KeyboardInterrupt"
    by auto
  then obtain cb where ev: "ev = Stmt cb" by (cases ev) auto
  from run_snoc_Running [OF snoc.prems(2) [unfolded ev]] obtain p' s' where
    r: "run pre (Running L87 st0) = Running p' s'" and e: "exec cb p' s' = Inr (p, s)" by blast
  define rs' where "rs' = top_reads pre L87 st0"
  define rs where "rs = top_reads (pre @ [ev]) L87 st0"
  have rs: "rs = rs' @ (if p' = L87 then [cb] else [])"
    unfolding rs_def rs'_def ev by (rule top_reads_snoc [OF r])
  note ih = snoc.IH [OF ki r, folded rs'_def]
  have goal: "(p = L87 \<longrightarrow> iterate rs st0 = Inr s) \<and>
         (p \<noteq> L87 \<longrightarrow> rs \<noteq> [] \<and>
            (\<exists>st. iterate (butlast rs) st0 = Inr st \<and> at_point st (last rs) p s))"
  proof (cases p')
    case L87
    with ih have top: "iterate rs' st0 = Inr s'" by simp
    from L87 e have "p = L88" "s = read_byte cb s'" by auto
    moreover from L87 rs have "rs = rs' @ [cb]" by simp
    ultimately show ?thesis using top by simp
  next
    case L88
    with ih obtain st where
      a: "rs' \<noteq> []" "iterate (butlast rs') st0 = Inr st" "s' = read_byte (last rs') st" by auto
    from L88 e have "p = L90" "s = append_byte s'" by auto
    moreover from L88 rs have "rs = rs'" by simp
    ultimately show ?thesis using a by auto
  next
    case L90
    with ih obtain st where
      a: "rs' \<noteq> []" "iterate (butlast rs') st0 = Inr st"
         "s' = append_byte (read_byte (last rs') st)" by auto
    from L90 rs have eq: "rs = rs'" by simp
    show ?thesis
    proof (cases "frame_ready s'")
      case True
      with L90 e have "p = L91" "s = s'" by auto
      with a True eq show ?thesis by auto
    next
      case False
      with L90 e have ps: "p = L87" "s = s'" by auto
      from False a(3) have "step (last rs') st = Inr s'" by (simp add: step_not_ready)
      from iterate_snoc [OF a(2) this] a(1) have "iterate rs' st0 = Inr s'" by simp
      with ps eq show ?thesis by simp
    qed
  next
    case L91
    with ih obtain st where
      a: "rs' \<noteq> []" "iterate (butlast rs') st0 = Inr st"
         "s' = append_byte (read_byte (last rs') st)" "frame_ready s'" by auto
    from L91 e have "p = L97" "decode_frame s' = Inr s" by (auto split: sum.splits)
    moreover from L91 rs have "rs = rs'" by simp
    ultimately show ?thesis using a by auto
  next
    case L97
    with ih obtain st where
      a: "rs' \<noteq> []" "iterate (butlast rs') st0 = Inr st"
         "frame_ready (append_byte (read_byte (last rs') st))"
         "decode_frame (append_byte (read_byte (last rs') st)) = Inr s'" by auto
    from L97 e have "p = L98" "s = roll_buffer s'" by auto
    moreover from L97 rs have "rs = rs'" by simp
    ultimately show ?thesis using a by auto
  next
    case L98
    with ih obtain st s2 where
      a: "rs' \<noteq> []" "iterate (butlast rs') st0 = Inr st"
         "frame_ready (append_byte (read_byte (last rs') st))"
         "decode_frame (append_byte (read_byte (last rs') st)) = Inr s2" "s' = roll_buffer s2"
      by auto
    from L98 e have ps: "p = L100" "store_row s' = Inr s" by (auto split: sum.splits)
    from step_ready [OF a(3,4)] ps(2) a(5) have "step (last rs') st = Inr (clear_rawbin s)"
      by simp
    moreover from L98 rs have "rs = rs'" by simp
    ultimately show ?thesis using a ps by auto
  next
    case L100
    with ih obtain st where
      a: "rs' \<noteq> []" "iterate (butlast rs') st0 = Inr st"
         "frame_ready (append_byte (read_byte (last rs') st))"
         "step (last rs') st = Inr (clear_rawbin s')" by auto
    from L100 e have "p = L103" "s = s'" by auto
    moreover from L100 rs have "rs = rs'" by simp
    ultimately show ?thesis using a by auto
  next
    case L103
    with ih obtain st where
      a: "rs' \<noteq> []" "iterate (butlast rs') st0 = Inr st"
         "step (last rs') st = Inr (clear_rawbin s')" by auto
    from L103 e have ps: "p = L87" "s = clear_rawbin s'" by auto
    from L103 rs have eq: "rs = rs'" by simp
    from iterate_snoc [OF a(2,3)] a(1) have "iterate rs' st0 = Inr (clear_rawbin s')" by simp
    with ps eq show ?thesis by simp
  qed
  then show ?case by (simp only: rs_def)
qed

lemma at_point_doppler:
  assumes "at_point st cb p s"
  shows "(p \<in> {L87, L88, L90, L91, L97} \<longrightarrow> doppler s = doppler st) \<and>
         (p = L98 \<longrightarrow> doppler s = np_roll1 (doppler st)) \<and>
         (p \<in> {L100, L103} \<longrightarrow> (\<exists>st'. step cb st = Inr st' \<and> doppler s = doppler st'))"
proof (cases p)
  case L98
  with assms obtain s2 where
    "decode_frame (append_byte (read_byte cb st)) = Inr s2" "s = roll_buffer s2" by auto
  then have "doppler s = np_roll1 (doppler st)"
    by (simp add: roll_buffer_def decode_frame_doppler append_read_fields)
  with L98 show ?thesis by simp
next
  case L100
  with assms have "step cb st = Inr (clear_rawbin s)" by simp
  moreover have "doppler s = doppler (clear_rawbin s)" by (simp add: clear_rawbin_def)
  ultimately show ?thesis using L100 by auto
next
  case L103
  with assms have "step cb st = Inr (clear_rawbin s)" by simp
  moreover have "doppler s = doppler (clear_rawbin s)" by (simp add: clear_rawbin_def)
  ultimately show ?thesis using L103 by auto
qed (use assms in \<open>auto simp: read_byte_doppler append_read_fields decode_frame_doppler\<close>)

lemma run_returned_split:
  assumes "run evs (Running p s) = Returned a"
  shows "\<exists>pre post p' s'. evs = pre @ KeyboardInterrupt # post \<and> KeyboardInterrupt \<notin> set pre \<and>
           run pre (Running p s) = Running p' s' \<and> a = doppler s'"
  using assms
proof (induction evs arbitrary: p s)
  case Nil
  then show ?case by simp
next
  case (Cons ev evs)
  show ?case
  proof (cases ev)
    case KeyboardInterrupt
    with Cons.prems have "a = doppler s" by simp
    moreover have "ev # evs = [] @ KeyboardInterrupt # evs" using KeyboardInterrupt by simp
    moreover have "run [] (Running p s) = Running p s" by simp
    ultimately show ?thesis by (metis empty_iff list.set(1))
  next
    case (Stmt cb)
    with Cons.prems obtain p1 s1 where
      e: "exec cb p s = Inr (p1, s1)" and r: "run evs (Running p1 s1) = Returned a"
      by (auto split: sum.splits prod.splits)
    from Cons.IH [OF r] obtain pre post p' s' where
      a: "evs = pre @ KeyboardInterrupt # post" "KeyboardInterrupt \<notin> set pre"
         "run pre (Running p1 s1) = Running p' s'" "a = doppler s'" by blast
    have "ev # evs = (Stmt cb # pre) @ KeyboardInterrupt # post" using a(1) Stmt by simp
    moreover have "KeyboardInterrupt \<notin> set (Stmt cb # pre)" using a(2) by simp
    moreover have "run (Stmt cb # pre) (Running p s) = Running p' s'" using e a(3) by simp
    ultimately show ?thesis using a(4) by blast
  qed
qed

subsection \<open>Cancellation\<close>

text \<open>
  After one whole frame and five bytes of the next, the sixth byte completes the window;
  the frame is decoded and the waterfall rolled (the loop stands before line 98) when
  Ctrl-C arrives. The function returns the rolled waterfall: the oldest row at index 0 and
  the newest at index 1, which is neither the waterfall before this frame nor the one
  that completing the frame gives.
\<close>

theorem interrupt_in_flight_counterexample:
  "iterate [Some 0, Some 0, Some 0, Some 0, Some 0, Some 0, Some 0, Some 0, Some 0, Some 0, Some 0]
     st3 = Inr st3_five \<and>
   doppler st3_five = \<lparr>ncols = 1, rows = [row1, [Finite 0]]\<rparr> \<and>
   run [Stmt (Some 0), Stmt None, Stmt None, Stmt None, Stmt None] (Running L87 st3_five) =
     Running L98 (st3_five\<lparr>rawbin := [0, 0, 0, 0, 0, 0],
                    doppler := \<lparr>ncols = 1, rows = [[Finite 0], row1]\<rparr>\<rparr>) \<and>
   run [Stmt (Some 0), Stmt None, Stmt None, Stmt None, Stmt None, KeyboardInterrupt]
     (Running L87 st3_five) = Returned \<lparr>ncols = 1, rows = [[Finite 0], row1]\<rparr> \<and>
   step (Some 0) st3_five =
     Inr (st3_five\<lparr>rawbin := [], doppler := \<lparr>ncols = 1, rows = [row1, row1]\<rparr>\<rparr>) \<and>
   \<lparr>ncols = 1, rows = [[Finite 0], row1]\<rparr> \<noteq> \<lparr>ncols = 1, rows = [row1, [Finite 0]]\<rparr> \<and>
   \<lparr>ncols = 1, rows = [[Finite 0], row1]\<rparr> \<noteq> \<lparr>ncols = 1, rows = [row1, row1]\<rparr>"
proof -
  have d: "doppler st3_five = \<lparr>ncols = 1, rows = [row1, [Finite 0]]\<rparr>" by simp
  have n1: "\<lparr>ncols = 1, rows = [[Finite 0], row1]\<rparr> \<noteq> \<lparr>ncols = 1::nat, rows = [row1, [Finite 0]]\<rparr>"
    using row1_not_zero by simp
  have n2: "\<lparr>ncols = 1, rows = [[Finite 0], row1]\<rparr> \<noteq> \<lparr>ncols = 1::nat, rows = [row1, row1]\<rparr>"
    using row1_not_zero by simp
  from iterate_st3_eleven d run_st3_five_in_flight run_st3_five_interrupted step_st3_five n1 n2
  show ?thesis by (intro conjI)
qed

text \<open>
  Claim C9, as the code has it. The function returns only through the interrupt handler,
  and what it returns is the waterfall as the statements run before Ctrl-C left it, an
  array of the initial dimensions. With the reads of line 87 so far: at the top of the
  loop it is the waterfall after whole iterations over all of them; inside an iteration
  and up to the roll of line 97 it is the waterfall after whole iterations over all reads
  but the last; between line 97 and line 98 it is that waterfall rolled by one row, the
  new row not yet written; after line 98 it is the waterfall that the whole iteration
  gives. Rows are assigned whole, so no row is partially written; the frame under way is
  not completed first.
\<close>

theorem interrupt_returns_current_buffer:
  assumes "run evs (Running L87 st0) = Returned a"
  shows "\<exists>pre post p s.
           evs = pre @ KeyboardInterrupt # post \<and> KeyboardInterrupt \<notin> set pre \<and>
           run pre (Running L87 st0) = Running p s \<and> a = doppler s \<and>
           shape a = shape (doppler st0) \<and>
           (p = L87 \<longrightarrow> iterate (top_reads pre L87 st0) st0 = Inr s) \<and>
           (p \<noteq> L87 \<longrightarrow> top_reads pre L87 st0 \<noteq> [] \<and>
              (\<exists>st. iterate (butlast (top_reads pre L87 st0)) st0 = Inr st \<and>
                 (p \<in> {L88, L90, L91, L97} \<longrightarrow> a = doppler st) \<and>
                 (p = L98 \<longrightarrow> a = np_roll1 (doppler st)) \<and>
                 (p \<in> {L100, L103} \<longrightarrow>
                    (\<exists>st'. step (last (top_reads pre L87 st0)) st = Inr st' \<and>
                           iterate (top_reads pre L87 st0) st0 = Inr st' \<and>
                           a = doppler st'))))"
proof -
  from run_returned_split [OF assms] obtain pre post p s where
    sp: "evs = pre @ KeyboardInterrupt # post" "KeyboardInterrupt \<notin> set pre"
        "run pre (Running L87 st0) = Running p s" "a = doppler s" by blast
  define rs where "rs = top_reads pre L87 st0"
  note inv = run_invariant [OF sp(2,3), folded rs_def]
  have top: "p = L87 \<longrightarrow> iterate rs st0 = Inr s" using inv by blast
  have mid: "p \<noteq> L87 \<longrightarrow> rs \<noteq> [] \<and>
              (\<exists>st. iterate (butlast rs) st0 = Inr st \<and>
                 (p \<in> {L88, L90, L91, L97} \<longrightarrow> a = doppler st) \<and>
                 (p = L98 \<longrightarrow> a = np_roll1 (doppler st)) \<and>
                 (p \<in> {L100, L103} \<longrightarrow>
                    (\<exists>st'. step (last rs) st = Inr st' \<and> iterate rs st0 = Inr st' \<and>
                           a = doppler st')))"
  proof
    assume "p \<noteq> L87"
    with inv obtain st where
      a: "rs \<noteq> []" "iterate (butlast rs) st0 = Inr st" "at_point st (last rs) p s" by blast
    note d = at_point_doppler [OF a(3)]
    have 1: "p \<in> {L88, L90, L91, L97} \<longrightarrow> a = doppler st" using d sp(4) by auto
    have 2: "p = L98 \<longrightarrow> a = np_roll1 (doppler st)" using d sp(4) by auto
    have 3: "p \<in> {L100, L103} \<longrightarrow>
        (\<exists>st'. step (last rs) st = Inr st' \<and> iterate rs st0 = Inr st' \<and> a = doppler st')"
    proof
      assume "p \<in> {L100, L103}"
      with d obtain st' where s: "step (last rs) st = Inr st'" "doppler s = doppler st'"
        by blast
      from iterate_snoc [OF a(2) s(1)] a(1) have "iterate rs st0 = Inr st'" by simp
      with s sp(4) show "\<exists>st'. step (last rs) st = Inr st' \<and> iterate rs st0 = Inr st' \<and>
          a = doppler st'" by auto
    qed
    from a(1,2) 1 2 3 show "rs \<noteq> [] \<and>
              (\<exists>st. iterate (butlast rs) st0 = Inr st \<and>
                 (p \<in> {L88, L90, L91, L97} \<longrightarrow> a = doppler st) \<and>
                 (p = L98 \<longrightarrow> a = np_roll1 (doppler st)) \<and>
                 (p \<in> {L100, L103} \<longrightarrow>
                    (\<exists>st'. step (last rs) st = Inr st' \<and> iterate rs st0 = Inr st' \<and>
                           a = doppler st')))"
      by blast
  qed
  have sh: "shape a = shape (doppler st0)"
  proof (cases "p = L87")
    case True
    with top have "iterate rs st0 = Inr s" by simp
    from iterate_shape [OF this] sp(4) show ?thesis by simp
  next
    case False
    with mid obtain st where
      b: "iterate (butlast rs) st0 = Inr st"
         "p \<in> {L88, L90, L91, L97} \<longrightarrow> a = doppler st"
         "p = L98 \<longrightarrow> a = np_roll1 (doppler st)"
         "p \<in> {L100, L103} \<longrightarrow> (\<exists>st'. step (last rs) st = Inr st' \<and>
             iterate rs st0 = Inr st' \<and> a = doppler st')"
      by blast
    note s0 = iterate_shape [OF b(1)]
    from False consider "p \<in> {L88, L90, L91, L97}" | "p = L98" | "p \<in> {L100, L103}"
      by (cases p) auto
    then show ?thesis
    proof cases
      case 1
      with b(2) have "a = doppler st" by blast
      with s0 show ?thesis by simp
    next
      case 2
      with b(3) have "a = np_roll1 (doppler st)" by blast
      with s0 show ?thesis by (simp add: np_roll1_shape)
    next
      case 3
      with b(4) obtain st' where "iterate rs st0 = Inr st'" "a = doppler st'" by blast
      with iterate_shape [of rs st0 st'] show ?thesis by simp
    qed
  qed
  from sp sh top mid show ?thesis unfolding rs_def by blast
qed

theorem interrupt_returns_current_buffer_witness:
  "run [Stmt (Some 0), Stmt None, Stmt None, Stmt None, Stmt None, KeyboardInterrupt]
     (Running L87 st3_five) = Returned \<lparr>ncols = 1, rows = [[Finite 0], row1]\<rparr> \<and>
   run [Stmt (Some 0), Stmt None, Stmt None, Stmt None, Stmt None] (Running L87 st3_five) =
     Running L98 (st3_five\<lparr>rawbin := [0, 0, 0, 0, 0, 0],
                    doppler := \<lparr>ncols = 1, rows = [[Finite 0], row1]\<rparr>\<rparr>) \<and>
   top_reads [Stmt (Some 0), Stmt None, Stmt None, Stmt None, Stmt None] L87 st3_five =
     [Some 0] \<and>
   \<lparr>ncols = 1, rows = [[Finite 0], row1]\<rparr> = np_roll1 (doppler st3_five) \<and>
   shape \<lparr>ncols = 1, rows = [[Finite 0], row1]\<rparr> = shape (doppler st3_five)"
proof -
  from interrupt_returns_current_buffer [OF run_st3_five_interrupted]
  have s: "shape \<lparr>ncols = 1, rows = [[Finite 0], row1]\<rparr> = shape (doppler st3_five)" by blast
  have t: "top_reads [Stmt (Some 0), Stmt None, Stmt None, Stmt None, Stmt None] L87 st3_five =
     [Some 0]"
    by (simp add: read_byte_def append_byte_def frame_ready_def decode_frame_def decode_six_zero
        roll_buffer_def np_roll1_def)
  have r: "\<lparr>ncols = 1, rows = [[Finite 0], row1]\<rparr> = np_roll1 (doppler st3_five)"
    by (simp add: np_roll1_def)
  from run_st3_five_interrupted run_st3_five_in_flight t r s show ?thesis by (intro conjI)
qed

end
